theory Spec2Isabelle
  imports Main "HOL-Library.Word"
begin

unbundle bit_operations_syntax

chapter \<open>Embedding of the demultiplexing pipeline\<close>

type_synonym u8 = "8 word"
type_synonym u16 = "16 word"
type_synonym u32 = "32 word"

section \<open>Driving a component\<close>

text \<open>
  Every component is a step function from a state and one input to the new state and
  what the call returned or emitted. \<open>run_steps\<close> feeds a list of inputs in order and
  keeps the outputs, one per call.
\<close>

fun run_steps :: "('s \<Rightarrow> 'x \<Rightarrow> 's \<times> 'o) \<Rightarrow> 's \<Rightarrow> 'x list \<Rightarrow> 's \<times> 'o list" where
  "run_steps f st [] = (st, [])"
| "run_steps f st (x # xs) =
     (let (st1, out) = f st x;
          (st2, outs) = run_steps f st1 xs
      in (st2, out # outs))"

section \<open>CRC-16 (dab\_parser.cpp and edi\_parser.cpp)\<close>

definition crc16_table :: "u16 list" where
  "crc16_table =
     [0x0000, 0x1021, 0x2042, 0x3063, 0x4084, 0x50a5, 0x60c6, 0x70e7,
      0x8108, 0x9129, 0xa14a, 0xb16b, 0xc18c, 0xd1ad, 0xe1ce, 0xf1ef,
      0x1231, 0x0210, 0x3273, 0x2252, 0x52b5, 0x4294, 0x72f7, 0x62d6,
      0x9339, 0x8318, 0xb37b, 0xa35a, 0xd3bd, 0xc39c, 0xf3ff, 0xe3de,
      0x2462, 0x3443, 0x0420, 0x1401, 0x64e6, 0x74c7, 0x44a4, 0x5485,
      0xa56a, 0xb54b, 0x8528, 0x9509, 0xe5ee, 0xf5cf, 0xc5ac, 0xd58d,
      0x3653, 0x2672, 0x1611, 0x0630, 0x76d7, 0x66f6, 0x5695, 0x46b4,
      0xb75b, 0xa77a, 0x9719, 0x8738, 0xf7df, 0xe7fe, 0xd79d, 0xc7bc,
      0x48c4, 0x58e5, 0x6886, 0x78a7, 0x0840, 0x1861, 0x2802, 0x3823,
      0xc9cc, 0xd9ed, 0xe98e, 0xf9af, 0x8948, 0x9969, 0xa90a, 0xb92b,
      0x5af5, 0x4ad4, 0x7ab7, 0x6a96, 0x1a71, 0x0a50, 0x3a33, 0x2a12,
      0xdbfd, 0xcbdc, 0xfbbf, 0xeb9e, 0x9b79, 0x8b58, 0xbb3b, 0xab1a,
      0x6ca6, 0x7c87, 0x4ce4, 0x5cc5, 0x2c22, 0x3c03, 0x0c60, 0x1c41,
      0xedae, 0xfd8f, 0xcdec, 0xddcd, 0xad2a, 0xbd0b, 0x8d68, 0x9d49,
      0x7e97, 0x6eb6, 0x5ed5, 0x4ef4, 0x3e13, 0x2e32, 0x1e51, 0x0e70,
      0xff9f, 0xefbe, 0xdfdd, 0xcffc, 0xbf1b, 0xaf3a, 0x9f59, 0x8f78,
      0x9188, 0x81a9, 0xb1ca, 0xa1eb, 0xd10c, 0xc12d, 0xf14e, 0xe16f,
      0x1080, 0x00a1, 0x30c2, 0x20e3, 0x5004, 0x4025, 0x7046, 0x6067,
      0x83b9, 0x9398, 0xa3fb, 0xb3da, 0xc33d, 0xd31c, 0xe37f, 0xf35e,
      0x02b1, 0x1290, 0x22f3, 0x32d2, 0x4235, 0x5214, 0x6277, 0x7256,
      0xb5ea, 0xa5cb, 0x95a8, 0x8589, 0xf56e, 0xe54f, 0xd52c, 0xc50d,
      0x34e2, 0x24c3, 0x14a0, 0x0481, 0x7466, 0x6447, 0x5424, 0x4405,
      0xa7db, 0xb7fa, 0x8799, 0x97b8, 0xe75f, 0xf77e, 0xc71d, 0xd73c,
      0x26d3, 0x36f2, 0x0691, 0x16b0, 0x6657, 0x7676, 0x4615, 0x5634,
      0xd94c, 0xc96d, 0xf90e, 0xe92f, 0x99c8, 0x89e9, 0xb98a, 0xa9ab,
      0x5844, 0x4865, 0x7806, 0x6827, 0x18c0, 0x08e1, 0x3882, 0x28a3,
      0xcb7d, 0xdb5c, 0xeb3f, 0xfb1e, 0x8bf9, 0x9bd8, 0xabbb, 0xbb9a,
      0x4a75, 0x5a54, 0x6a37, 0x7a16, 0x0af1, 0x1ad0, 0x2ab3, 0x3a92,
      0xfd2e, 0xed0f, 0xdd6c, 0xcd4d, 0xbdaa, 0xad8b, 0x9de8, 0x8dc9,
      0x7c26, 0x6c07, 0x5c64, 0x4c45, 0x3ca2, 0x2c83, 0x1ce0, 0x0cc1,
      0xef1f, 0xff3e, 0xcf5d, 0xdf7c, 0xaf9b, 0xbfba, 0x8fd9, 0x9ff8,
      0x6e17, 0x7e36, 0x4e55, 0x5e74, 0x2e93, 0x3eb2, 0x0ed1, 0x1ef0]"

text \<open>
  One step of the table-driven loops:
  \<open>crc = (crc << 8) ^ crc16_table[(crc >> 8) ^ byte]\<close>, the index taken from the
  high byte of the 16-bit value.
\<close>

definition crc16_step :: "u16 \<Rightarrow> u8 \<Rightarrow> u16" where
  "crc16_step crc b = push_bit 8 crc XOR crc16_table ! unat (drop_bit 8 crc XOR ucast b)"

text \<open>\<open>DABStreamParser::crc16\<close>.\<close>

definition crc16 :: "u8 list \<Rightarrow> u16" where
  "crc16 data = foldl crc16_step 0xFFFF data XOR 0xFFFF"

text \<open>
  \<open>EdiParser::crc16\<close>, bit by bit: the inner loop runs eight times on each byte.
\<close>

definition crc16_shift :: "u16 \<Rightarrow> u16" where
  "crc16_shift crc =
     (if crc AND 0x8000 \<noteq> 0 then push_bit 1 crc XOR 0x1021 else push_bit 1 crc)"

definition crc16_bits_step :: "u16 \<Rightarrow> u8 \<Rightarrow> u16" where
  "crc16_bits_step crc b = (crc16_shift ^^ 8) (crc XOR push_bit 8 (ucast b))"

definition edi_crc16 :: "u8 list \<Rightarrow> u16" where
  "edi_crc16 data = foldl crc16_bits_step 0xFFFF data XOR 0xFFFF"

text \<open>The two bytes of a 16-bit value, high byte first.\<close>

definition hi8 :: "u16 \<Rightarrow> u8" where
  "hi8 w = ucast (drop_bit 8 w)"

definition lo8 :: "u16 \<Rightarrow> u8" where
  "lo8 w = ucast w"

section \<open>UDP extractor (parsers/udp\_extractor.cpp)\<close>

text \<open>
  The result of \<open>extractUdpFromIpv4\<close>: the reference parameters it fills on success.
  The payload pointer is kept as an offset into the datagram, so that a slice that
  leaves the buffer stays visible.
\<close>

record udp_slice =
  dst_ip :: u32
  dst_port :: u16
  payload_ptr :: nat
  payload_len :: nat

definition be16 :: "u8 \<Rightarrow> u8 \<Rightarrow> nat" where
  "be16 hi lo = unat hi * 256 + unat lo"

definition be32w :: "u8 \<Rightarrow> u8 \<Rightarrow> u8 \<Rightarrow> u8 \<Rightarrow> u32" where
  "be32w a b c d =
     push_bit 24 (ucast a) OR push_bit 16 (ucast b) OR push_bit 8 (ucast c) OR ucast d"

text \<open>The two header fields both parsers compute: IHL in bytes and the UDP length.\<close>

definition ip_hdr_bytes :: "u8 list \<Rightarrow> nat" where
  "ip_hdr_bytes p = unat (p ! 0 AND 0x0F) * 4"

definition udp_len_field :: "u8 list \<Rightarrow> nat" where
  "udp_len_field p = be16 (p ! (ip_hdr_bytes p + 4)) (p ! (ip_hdr_bytes p + 5))"

definition extractUdpFromIpv4 :: "u8 list \<Rightarrow> udp_slice option" where
  "extractUdpFromIpv4 ip_packet =
     (let len = length ip_packet in
      if len < 28 then None
      else if drop_bit 4 (ip_packet ! 0) \<noteq> 4 then None
      else if ip_packet ! 9 \<noteq> 17 then None
      else
        let ip = be32w (ip_packet ! 16) (ip_packet ! 17) (ip_packet ! 18) (ip_packet ! 19);
            ip_hdr = ip_hdr_bytes ip_packet
        in if ip_hdr < 20 \<or> ip_hdr + 8 > len then None
           else
             let port = word_of_nat (be16 (ip_packet ! (ip_hdr + 2)) (ip_packet ! (ip_hdr + 3)));
                 udp_len = udp_len_field ip_packet
             in if udp_len < 8 then None
                else Some \<lparr>dst_ip = ip, dst_port = port,
                           payload_ptr = ip_hdr + 8, payload_len = udp_len - 8\<rparr>)"

text \<open>
  The sibling path \<open>EnsembleManager::processIpPacket\<close> (ensemble\_manager.cpp), which
  parses the same headers before it calls \<open>processUdp\<close>; \<open>None\<close> is its early return,
  also the one for an empty payload.
\<close>

definition processIpPacket_extract :: "u8 list \<Rightarrow> udp_slice option" where
  "processIpPacket_extract ip_data =
     (let len = length ip_data in
      if len < 28 then None
      else if drop_bit 4 (ip_data ! 0) \<noteq> 4 then None
      else
        let ip_hdr_len = ip_hdr_bytes ip_data
        in if ip_hdr_len < 20 \<or> ip_hdr_len > len then None
           else if ip_data ! 9 \<noteq> 17 then None
           else
             let ip = be32w (ip_data ! 16) (ip_data ! 17) (ip_data ! 18) (ip_data ! 19)
             in if len < ip_hdr_len + 8 then None
                else
                  let port = word_of_nat (be16 (ip_data ! (ip_hdr_len + 2)) (ip_data ! (ip_hdr_len + 3)));
                      udp_len = udp_len_field ip_data
                  in if udp_len < 8 \<or> udp_len > len - ip_hdr_len then None
                     else if udp_len - 8 > 0
                       then Some \<lparr>dst_ip = ip, dst_port = port,
                                  payload_ptr = ip_hdr_len + 8, payload_len = udp_len - 8\<rparr>
                       else None)"

text \<open>A 28-byte IPv4/UDP datagram whose UDP length field says 256.\<close>

definition short_dgram :: "u8 list" where
  "short_dgram =
     [0x45, 0, 0, 28, 0, 0, 0, 0, 64, 17, 0, 0, 10, 0, 0, 1, 239, 199, 2, 1,
      0x04, 0xD2, 0x04, 0xD2, 0x01, 0x00, 0, 0]"

section \<open>ETI-NA pipeline, stage 1 (etina\_pipeline.cpp)\<close>

record EtinaOffsetState =
  packet_count :: int
  min_ff_count :: int
  detected_offset :: int

text \<open>The member initialisers of \<open>EtinaOffsetState\<close>.\<close>

definition etina_offset_init :: EtinaOffsetState where
  "etina_offset_init = \<lparr>packet_count = 0, min_ff_count = 255, detected_offset = - 1\<rparr>"

definition OFFSET_DETECTION_PACKET_COUNT :: int where
  "OFFSET_DETECTION_PACKET_COUNT = 5"

fun count_leading_ff :: "u8 list \<Rightarrow> int" where
  "count_leading_ff [] = 0"
| "count_leading_ff (b # bs) = (if b = 0xFF then 1 + count_leading_ff bs else 0)"

text \<open>
  \<open>strip_at\<close> is the tail shared by both returning branches: \<open>None\<close> is the null
  pointer, \<open>Some q\<close> the slice \<open>payload + offset\<close> of \<open>len - offset\<close> bytes.
\<close>

definition strip_at :: "int \<Rightarrow> u8 list \<Rightarrow> u8 list option" where
  "strip_at off payload =
     (let offset = nat off in
      if offset \<ge> length payload then None else Some (drop offset payload))"

definition etina_strip_padding ::
  "EtinaOffsetState \<Rightarrow> u8 list \<Rightarrow> EtinaOffsetState \<times> u8 list option" where
  "etina_strip_padding state payload =
     (if detected_offset state \<ge> 0 then (state, strip_at (detected_offset state) payload)
      else
        let ff_count = count_leading_ff payload;
            s1 = (if ff_count < min_ff_count state
                  then state\<lparr>min_ff_count := ff_count\<rparr> else state);
            s2 = s1\<lparr>packet_count := packet_count s1 + 1\<rparr>
        in if packet_count s2 \<ge> OFFSET_DETECTION_PACKET_COUNT
           then let s3 = s2\<lparr>detected_offset := min_ff_count s2\<rparr>
                in (s3, strip_at (detected_offset s3) payload)
           else (s2, None))"

text \<open>Feeding a run of payloads: the final state and what each call returned.\<close>

fun strip_all :: "EtinaOffsetState \<Rightarrow> u8 list list \<Rightarrow> EtinaOffsetState \<times> u8 list option list" where
  "strip_all st [] = (st, [])"
| "strip_all st (p # ps) =
     (let (st1, out) = etina_strip_padding st p;
          (st2, outs) = strip_all st1 ps
      in (st2, out # outs))"

text \<open>
  The callers (ts\_scanner.cpp, dvbdab\_c.cpp) pass the payload of one TS packet: what is
  left of its 188 bytes after the header of 4 and the adaptation field, between 1 and
  \<open>TS_BODY_SIZE\<close> bytes.
\<close>

definition TS_BODY_SIZE :: nat where
  "TS_BODY_SIZE = 184"

text \<open>
  What a payload gives once \<open>off\<close> bytes of padding are known: nothing when it has no
  more than \<open>off\<close> bytes, else its bytes after the first \<open>off\<close>.
\<close>

definition stripped :: "int \<Rightarrow> u8 list \<Rightarrow> u8 list option" where
  "stripped off p = (if int (length p) \<le> off then None else Some (drop (nat off) p))"

text \<open>A run of five payloads with two bytes of padding at least, and two later payloads.\<close>

definition padded_payloads :: "u8 list list" where
  "padded_payloads =
     [[0xFF, 0xFF, 0xFF, 0x1B, 0x00],
      [0xFF, 0xFF, 0x9B, 0x01],
      [0xFF, 0xFF, 0xFF, 0xFF],
      [0xFF, 0xFF, 0x1B],
      [0xFF, 0xFF, 0xFF, 0x05, 0x06]]"

definition later_payloads :: "u8 list list" where
  "later_payloads = [[0xFF, 0xFF, 0x1B, 0x2C], [0xFF]]"

section \<open>Ordered maps (std::map)\<close>

text \<open>
  A \<open>std::map\<close> is kept as an association list in increasing key order, the order its
  iterators walk. \<open>map_find\<close> is \<open>find\<close>/\<open>count\<close>, \<open>map_put\<close> is an assignment through
  \<open>operator[]\<close>, \<open>map_erase\<close> is \<open>erase(key)\<close>.
\<close>

fun map_find :: "('k \<times> 'v) list \<Rightarrow> 'k \<Rightarrow> 'v option" where
  "map_find [] k = None"
| "map_find ((k', v) # r) k = (if k = k' then Some v else map_find r k)"

fun map_put :: "'k::linorder \<Rightarrow> 'v \<Rightarrow> ('k \<times> 'v) list \<Rightarrow> ('k \<times> 'v) list" where
  "map_put k v [] = [(k, v)]"
| "map_put k v ((k', v') # r) =
     (if k < k' then (k, v) # (k', v') # r
      else if k = k' then (k, v) # r
      else (k', v') # map_put k v r)"

fun map_erase :: "'k \<Rightarrow> ('k \<times> 'v) list \<Rightarrow> ('k \<times> 'v) list" where
  "map_erase k [] = []"
| "map_erase k ((k', v) # r) = (if k = k' then map_erase k r else (k', v) # map_erase k r)"

definition map_sorted :: "('k::linorder \<times> 'v) list \<Rightarrow> bool" where
  "map_sorted m = sorted_wrt (<) (map fst m)"

section \<open>PF reassembly (dab\_parser.cpp, PF\_Reassembler)\<close>

record PF_Header =
  pseq :: u16
  findex :: u32
  fcount :: u32
  fec :: bool
  addr :: bool
  plen :: u16

record PF_Collector =
  c_pseq :: u16
  c_fcount :: u32
  fragments_collected :: u32
  processed :: bool
  fragments :: "(u32 \<times> u8 list) list"

text \<open>The member initialisers of \<open>PF_Collector\<close>: what \<open>collectors_[pseq]\<close> creates.\<close>

definition PF_Collector_new :: PF_Collector where
  "PF_Collector_new =
     \<lparr>c_pseq = 0, c_fcount = 0, fragments_collected = 0, processed = False, fragments = []\<rparr>"

text \<open>
  \<open>af_allocated\<close> records whether the vector \<open>af_buffer_\<close> owns storage: a vector that
  never held a byte owns none and its \<open>data()\<close> is the null pointer, an insertion of
  bytes acquires storage, and \<open>clear()\<close> keeps it.
\<close>

record PF_Reassembler =
  collectors :: "(u16 \<times> PF_Collector) list"
  af_buffer :: "u8 list"
  af_allocated :: bool

text \<open>The reassembler as constructed.\<close>

definition pf_reset :: PF_Reassembler where
  "pf_reset = \<lparr>collectors = [], af_buffer = [], af_allocated = False\<rparr>"

text \<open>
  \<open>cleanup_old_collectors\<close>: the iterator walks the map in key order; \<open>sz\<close> is
  \<open>collectors_.size()\<close> as the walk goes on.
\<close>

fun cleanup_walk :: "nat \<Rightarrow> (u16 \<times> PF_Collector) list \<Rightarrow> (u16 \<times> PF_Collector) list" where
  "cleanup_walk sz [] = []"
| "cleanup_walk sz ((k, c) # rest) =
     (if sz > 8
      then (if processed c then cleanup_walk (sz - 1) rest else (k, c) # cleanup_walk sz rest)
      else (k, c) # rest)"

definition cleanup_old_collectors :: "(u16 \<times> PF_Collector) list \<Rightarrow> (u16 \<times> PF_Collector) list" where
  "cleanup_old_collectors cs = (if length cs > 16 then cleanup_walk (length cs) cs else cs)"

text \<open>
  \<open>parse_pf_header\<close> over the packet bytes; \<open>None\<close> is \<open>return false\<close>.
\<close>

definition parse_pf_header :: "u8 list \<Rightarrow> PF_Header option" where
  "parse_pf_header pkt =
     (let len = length pkt in
      if len < 14 \<or> pkt ! 0 \<noteq> 0x50 \<or> pkt ! 1 \<noteq> 0x46 then None
      else
        let fec_addr_plen = be16 (pkt ! 10) (pkt ! 11);
            pl = fec_addr_plen mod 16384
        in if pl > len - 14 then None
           else Some \<lparr>pseq = word_of_nat (be16 (pkt ! 2) (pkt ! 3)),
                      findex = word_of_nat (unat (pkt ! 4) * 65536 + be16 (pkt ! 5) (pkt ! 6)),
                      fcount = word_of_nat (unat (pkt ! 7) * 65536 + be16 (pkt ! 8) (pkt ! 9)),
                      fec = (fec_addr_plen div 32768 mod 2 = 1),
                      addr = (fec_addr_plen div 16384 mod 2 = 1),
                      plen = word_of_nat pl\<rparr>)"

definition pf_hdr_size :: "PF_Header \<Rightarrow> nat" where
  "pf_hdr_size hdr = 12 + (if fec hdr then 2 else 0) + (if addr hdr then 4 else 0) + 2"

text \<open>The bytes \<open>payload .. payload + hdr.plen\<close> that \<open>add_fragment\<close> stores.\<close>

definition pf_payload :: "PF_Header \<Rightarrow> u8 list \<Rightarrow> u8 list" where
  "pf_payload hdr pkt = take (unat (plen hdr)) (drop (pf_hdr_size hdr) pkt)"

text \<open>
  The concatenation loop \<open>for (i = 0; i < c.fcount; i++)\<close>: the buffer so far and
  whether every index was found (\<open>False\<close> is the early \<open>return nullptr\<close>).
\<close>

function concat_fragments ::
  "(u32 \<times> u8 list) list \<Rightarrow> nat \<Rightarrow> nat \<Rightarrow> u8 list \<Rightarrow> u8 list \<times> bool" where
  "concat_fragments fr i n buf =
     (if i < n
      then (case map_find fr (word_of_nat i) of
              None \<Rightarrow> (buf, False)
            | Some d \<Rightarrow> concat_fragments fr (i + 1) n (buf @ d))
      else (buf, True))"
  by pat_completeness auto
termination
  by (relation "measure (\<lambda>(fr, i, n, buf). n - i)") auto

declare concat_fragments.simps [simp del]

text \<open>
  The head of \<open>add_fragment\<close>: \<open>collectors_[hdr.pseq]\<close>, created when absent, and
  initialised again when it is new or its sequence was finished before.
\<close>

definition pf_get_collector :: "PF_Header \<Rightarrow> PF_Reassembler \<Rightarrow> PF_Collector" where
  "pf_get_collector hdr st =
     (let c = (case map_find (collectors st) (pseq hdr) of
                 None \<Rightarrow> PF_Collector_new | Some c \<Rightarrow> c)
      in if c_fcount c = 0 \<or> processed c
         then c\<lparr>c_pseq := pseq hdr, c_fcount := fcount hdr,
                fragments_collected := 0, processed := False, fragments := []\<rparr>
         else c)"

text \<open>
  \<open>add_fragment\<close>: the new state and the returned AF packet. \<open>None\<close> is \<open>nullptr\<close>,
  which is also what \<open>af_buffer_.data()\<close> is at the end when the assembled packet is
  empty and the buffer owns no storage.
\<close>

definition add_fragment ::
  "PF_Header \<Rightarrow> u8 list \<Rightarrow> PF_Reassembler \<Rightarrow> PF_Reassembler \<times> u8 list option" where
  "add_fragment hdr pkt st =
     (if length pkt < pf_hdr_size hdr + unat (plen hdr) then (st, None)
      else
        let payload = pf_payload hdr pkt;
            c1 = pf_get_collector hdr st
        in if findex hdr \<ge> c_fcount c1
           then (st\<lparr>collectors := map_put (pseq hdr) c1 (collectors st)\<rparr>, None)
           else if map_find (fragments c1) (findex hdr) \<noteq> None
           then (st\<lparr>collectors := map_put (pseq hdr) c1 (collectors st)\<rparr>, None)
           else
             let c2 = c1\<lparr>fragments := map_put (findex hdr) payload (fragments c1),
                         fragments_collected := fragments_collected c1 + 1\<rparr>
             in if fragments_collected c2 < c_fcount c2
                then (st\<lparr>collectors := map_put (pseq hdr) c2 (collectors st)\<rparr>, None)
                else
                  let c3 = c2\<lparr>processed := True\<rparr>;
                      cs3 = map_put (pseq hdr) c3 (collectors st);
                      (buf, found) = concat_fragments (fragments c3) 0 (unat (c_fcount c3)) [];
                      alloc = (af_allocated st \<or> buf \<noteq> [])
                  in if \<not> found
                     then (\<lparr>collectors = cs3, af_buffer = buf, af_allocated = alloc\<rparr>, None)
                     else (\<lparr>collectors = cleanup_old_collectors cs3, af_buffer = buf,
                            af_allocated = alloc\<rparr>,
                           if alloc then Some buf else None))"

text \<open>Feeding a run of PF packets through \<open>add_fragment\<close>, keeping every return value.\<close>

definition add_fragments ::
  "PF_Reassembler \<Rightarrow> (PF_Header \<times> u8 list) list \<Rightarrow> PF_Reassembler \<times> u8 list option list" where
  "add_fragments = run_steps (\<lambda>st (hdr, pkt). add_fragment hdr pkt st)"

text \<open>
  The front half of \<open>DABStreamParser::handle_pf_packet\<close>: parse the header, then hand the
  packet to \<open>add_fragment\<close>. A packet whose header does not parse changes nothing.
\<close>

definition pf_feed :: "PF_Reassembler \<Rightarrow> u8 list \<Rightarrow> PF_Reassembler \<times> u8 list option" where
  "pf_feed st pkt =
     (case parse_pf_header pkt of
        None \<Rightarrow> (st, None)
      | Some hdr \<Rightarrow> add_fragment hdr pkt st)"

definition pf_feed_all :: "PF_Reassembler \<Rightarrow> u8 list list \<Rightarrow> PF_Reassembler \<times> u8 list option list" where
  "pf_feed_all = run_steps pf_feed"

text \<open>
  A PF packet on the wire without FEC and address fields: magic, Pseq, Findex, Fcount,
  the length word, the payload, and two bytes of header CRC, which the parser skips.
\<close>

definition pf_packet :: "nat \<Rightarrow> nat \<Rightarrow> nat \<Rightarrow> u8 list \<Rightarrow> u8 list" where
  "pf_packet sq fi fcn payload =
     [0x50, 0x46,
      word_of_nat (sq div 256), word_of_nat sq,
      word_of_nat (fi div 65536), word_of_nat (fi div 256), word_of_nat fi,
      word_of_nat (fcn div 65536), word_of_nat (fcn div 256), word_of_nat fcn,
      word_of_nat (length payload div 256), word_of_nat (length payload),
      0, 0] @ payload"

text \<open>The first fragment of two, for each of the Pseq values 0 to 64.\<close>

definition first_fragments :: "u8 list list" where
  "first_fragments = map (\<lambda>sq. pf_packet sq 0 2 [0x41]) [0..<65]"

section \<open>PF reassembly in EdiParser (edi\_parser.cpp, feed)\<close>

record PfCollector =
  e_pseq :: u16
  e_fcount :: u32
  e_fragments :: "(u32 \<times> u8 list) list"

definition PfCollector_new :: PfCollector where
  "PfCollector_new = \<lparr>e_pseq = 0, e_fcount = 0, e_fragments = []\<rparr>"

text \<open>The header fields \<open>feed\<close> reads off the packet.\<close>

definition edi_pseq :: "u8 list \<Rightarrow> u16" where
  "edi_pseq d = word_of_nat (be16 (d ! 2) (d ! 3))"

definition edi_findex :: "u8 list \<Rightarrow> u32" where
  "edi_findex d = word_of_nat (unat (d ! 4) * 65536 + be16 (d ! 5) (d ! 6))"

definition edi_fcount :: "u8 list \<Rightarrow> u32" where
  "edi_fcount d = word_of_nat (unat (d ! 7) * 65536 + be16 (d ! 8) (d ! 9))"

definition edi_plen :: "u8 list \<Rightarrow> nat" where
  "edi_plen d = be16 (d ! 10 AND 0x3F) (d ! 11)"

definition edi_hdr_size :: "u8 list \<Rightarrow> nat" where
  "edi_hdr_size d =
     14 + (if drop_bit 7 (d ! 10) AND 1 \<noteq> 0 then 2 else 0)
        + (if drop_bit 6 (d ! 10) AND 1 \<noteq> 0 then 4 else 0)"

definition edi_payload :: "u8 list \<Rightarrow> u8 list" where
  "edi_payload d = take (edi_plen d) (drop (edi_hdr_size d) d)"

text \<open>
  The loop that builds \<open>af\<close>: an index that is not found is skipped.
\<close>

function edi_concat :: "(u32 \<times> u8 list) list \<Rightarrow> nat \<Rightarrow> nat \<Rightarrow> u8 list \<Rightarrow> u8 list" where
  "edi_concat fr i n af =
     (if i < n
      then (case map_find fr (word_of_nat i) of
              None \<Rightarrow> edi_concat fr (i + 1) n af
            | Some d \<Rightarrow> edi_concat fr (i + 1) n (af @ d))
      else af)"
  by pat_completeness auto
termination
  by (relation "measure (\<lambda>(fr, i, n, af). n - i)") auto

declare edi_concat.simps [simp del]

text \<open>
  The middle of \<open>feed\<close>: the collector \<open>pf_collectors_[pseq]\<close>, created when absent,
  emptied when its Pseq or Fcount differ from the packet's, with the fragment stored
  unless its index is there already.
\<close>

definition edi_collector :: "(u16 \<times> PfCollector) list \<Rightarrow> u8 list \<Rightarrow> PfCollector" where
  "edi_collector cs d =
     (let c0 = (case map_find cs (edi_pseq d) of None \<Rightarrow> PfCollector_new | Some c \<Rightarrow> c);
          c1 = (if e_pseq c0 \<noteq> edi_pseq d \<or> e_fcount c0 \<noteq> edi_fcount d
                then c0\<lparr>e_pseq := edi_pseq d, e_fcount := edi_fcount d, e_fragments := []\<rparr>
                else c0)
      in if map_find (e_fragments c1) (edi_findex d) = None
         then c1\<lparr>e_fragments := map_put (edi_findex d) (edi_payload d) (e_fragments c1)\<rparr>
         else c1)"

text \<open>
  \<open>EdiParser::feed\<close> up to its call of \<open>handleAfPacket\<close>: the collector map afterwards
  and the AF packet handed on (\<open>None\<close> when the call ends without one).
\<close>

definition edi_feed ::
  "(u16 \<times> PfCollector) list \<Rightarrow> u8 list \<Rightarrow> (u16 \<times> PfCollector) list \<times> u8 list option" where
  "edi_feed cs d =
     (if length d < 14 \<or> d ! 0 \<noteq> 0x50 \<or> d ! 1 \<noteq> 0x46 then (cs, None)
      else if edi_fcount d = 0 \<or> edi_fcount d > 256 \<or> edi_findex d \<ge> edi_fcount d \<or>
              length d < edi_hdr_size d + edi_plen d then (cs, None)
      else
        let c = edi_collector cs d
        in if length (e_fragments c) = unat (e_fcount c)
           then (map_erase (edi_pseq d) cs,
                 Some (edi_concat (e_fragments c) 0 (unat (e_fcount c)) []))
           else (map_put (edi_pseq d) c cs, None))"

definition edi_feed_all ::
  "(u16 \<times> PfCollector) list \<Rightarrow> u8 list list \<Rightarrow> (u16 \<times> PfCollector) list \<times> u8 list option list" where
  "edi_feed_all = run_steps edi_feed"


section \<open>ETI-NI frame assembly (edi\_parser.cpp, EdiParser::assembleEtiFrame)\<close>

record SubchannelData =
  scid :: u8
  sad :: u16
  tpl :: u8
  mst :: "u8 list"

record FrameControl =
  atstf :: bool
  ficf :: bool
  mid :: u8
  fp :: u8
  dflc :: u16
  tsta :: u32
  nst :: u8

text \<open>
  \<open>subchannels\<close> is the \<open>std::array<SubchannelData, 64>\<close>: a list of 64 records. \<open>fic\<close> is
  the vector of FIC bytes.
\<close>

record EtiBuilder =
  is_eti :: bool
  fc_valid :: bool
  err :: u8
  mnsc :: u16
  rfu :: u16
  fc :: FrameControl
  fic :: "u8 list"
  subchannels :: "SubchannelData list"

text \<open>
  What an assembler call does: it hands a frame to the callback, returns without one,
  or indexes the array of 64 streams or the frame buffer out of range, which C++ leaves
  undefined.
\<close>

datatype eti_result = Frame "u8 list" | NoFrame | OutOfBounds

definition ETI_NI_RAW_SIZE :: nat where
  "ETI_NI_RAW_SIZE = 6144"

text \<open>ERR and FSYNC, chosen by the parity of FCT.\<close>

definition eti_sync :: "u8 \<Rightarrow> u8 \<Rightarrow> u8 list" where
  "eti_sync e fct = (if unat fct mod 2 = 1 then [e, 0xF8, 0xC5, 0x49] else [e, 0x07, 0x3A, 0xB6])"

text \<open>
  The frame length FL as the 16-bit variable \<open>fl\<close> holds it: \<open>nst + 1 + fic_len / 4\<close>,
  then \<open>fl += mst.size() / 4\<close> for each of the first \<open>nst\<close> streams.
\<close>

definition eti_fl :: "u8 \<Rightarrow> nat \<Rightarrow> u8 list list \<Rightarrow> u16" where
  "eti_fl n fic_len msts =
     foldl (\<lambda>fl m. fl + word_of_nat (length m div 4))
       (word_of_nat (unat n + 1 + fic_len div 4)) msts"

text \<open>The four FC bytes: FCT, FICF and NST, then FP, MID and FL.\<close>

definition eti_fc_bytes :: "u8 \<Rightarrow> bool \<Rightarrow> u8 \<Rightarrow> u8 \<Rightarrow> u8 \<Rightarrow> u16 \<Rightarrow> u8 list" where
  "eti_fc_bytes fct fic_flag n frame_phase mode fl =
     (let fp_mid_fl = push_bit 13 (ucast frame_phase) OR push_bit 11 (ucast mode) OR fl
      in [fct, (if fic_flag then 0x80 else 0x00) OR n, hi8 fp_mid_fl, lo8 fp_mid_fl])"

text \<open>The four STC bytes of one stream; STL is the MST length in 64-bit words.\<close>

definition eti_stc_bytes :: "u8 \<Rightarrow> u16 \<Rightarrow> u8 \<Rightarrow> nat \<Rightarrow> u8 list" where
  "eti_stc_bytes sc sa tp mst_len =
     (let stl = (word_of_nat (mst_len div 8) :: u16)
      in [push_bit 2 sc OR (ucast (drop_bit 8 sa) AND 0x03),
          ucast sa,
          push_bit 2 tp OR (ucast (drop_bit 8 stl) AND 0x03),
          ucast stl])"

definition eti_tist_bytes :: "u32 \<Rightarrow> u8 list" where
  "eti_tist_bytes t = [ucast (drop_bit 24 t), ucast (drop_bit 16 t), ucast (drop_bit 8 t), ucast t]"

text \<open>
  FC, the STC of every stream and MNSC: the bytes from byte 4 that the EOH CRC covers.
\<close>

definition eti_head :: "u8 list \<Rightarrow> u8 list list \<Rightarrow> u16 \<Rightarrow> u8 list" where
  "eti_head fc_bytes stcs mn = fc_bytes @ concat stcs @ [hi8 mn, lo8 mn]"

text \<open>
  The bytes both assemblers write, in frame order: SYNC, the header with its CRC, FIC
  and MST, then EOF (MST CRC, RFU) and TIST. \<open>eti_pad\<close> fills the frame with 0x55.
\<close>

definition eti_layout ::
  "u8 list \<Rightarrow> u8 list \<Rightarrow> u16 \<Rightarrow> u8 list \<Rightarrow> u16 \<Rightarrow> u16 \<Rightarrow> u32 \<Rightarrow> u8 list" where
  "eti_layout sync head eoh_crc body mst_crc rf ts =
     sync @ head @ [hi8 eoh_crc, lo8 eoh_crc] @ body
     @ [hi8 mst_crc, lo8 mst_crc, hi8 rf, lo8 rf] @ eti_tist_bytes ts"

definition eti_pad :: "u8 list \<Rightarrow> u8 list" where
  "eti_pad used = used @ replicate (ETI_NI_RAW_SIZE - length used) 0x55"

text \<open>
  The MST copy loop of \<open>EdiParser::assembleEtiFrame\<close>: \<open>idx\<close> is the write position;
  \<open>None\<close> is the early return when a stream does not fit before the 8 bytes of EOF.
\<close>

fun edi_copy_mst :: "nat \<Rightarrow> u8 list list \<Rightarrow> u8 list option" where
  "edi_copy_mst idx [] = Some []"
| "edi_copy_mst idx (m # ms) =
     (if idx + length m > 6144 - 8 then None
      else (case edi_copy_mst (idx + length m) ms of
              None \<Rightarrow> None
            | Some rest \<Rightarrow> Some (m @ rest)))"

definition assembleEtiFrame :: "EtiBuilder \<Rightarrow> eti_result" where
  "assembleEtiFrame eti =
     (if \<not> is_eti eti \<or> \<not> fc_valid eti \<or> fic eti = [] then NoFrame
      else if length (fic eti) \<noteq> (if mid (fc eti) = 3 then 128 else 96) then NoFrame
      else if unat (nst (fc eti)) > length (subchannels eti) then OutOfBounds
      else
        let fct = (word_of_nat (unat (dflc (fc eti)) mod 250) :: u8);
            n = nst (fc eti);
            streams = take (unat n) (subchannels eti);
            fl = eti_fl n (length (fic eti)) (map mst streams);
            head = eti_head
                     (eti_fc_bytes fct (ficf (fc eti)) n (fp (fc eti)) (mid (fc eti)) fl)
                     (map (\<lambda>s. eti_stc_bytes (scid s) (sad s) (tpl s) (length (mst s))) streams)
                     (mnsc eti);
            eoh_crc = edi_crc16 head;
            idx = 8 + unat n * 4 + 4 + length (fic eti)
        in case edi_copy_mst idx (map mst streams) of
             None \<Rightarrow> NoFrame
           | Some msts \<Rightarrow>
               let body = fic eti @ msts;
                   mst_crc = edi_crc16 body
               in Frame (eti_pad (eti_layout (eti_sync (err eti) fct) head eoh_crc body mst_crc
                                    (rfu eti) (tsta (fc eti)))))"

section \<open>ETI-NI frame assembly (dab\_parser.cpp, DABStreamParser::assemble\_eti\_frame)\<close>

record EDI_FC =
  efc_atstf :: bool
  efc_tsta :: u32
  efc_ficf :: bool
  efc_nst :: u8
  efc_dflc :: u16
  efc_mid :: u8
  efc_fp :: u8

record EDI_STC =
  stream_index :: u8
  stc_scid :: u8
  stc_sad :: u16
  stc_tpl :: u8
  stc_mst :: "u8 list"

text \<open>
  \<open>b_fic\<close> is the array of 128 bytes, of which the first \<open>fic_length\<close> are the FIC;
  \<open>m_stc\<close> is the array of 64 streams.
\<close>

record EDI_Builder =
  b_is_eti :: bool
  m_err :: u8
  m_mnsc :: u16
  fic_length :: u8
  b_fic :: "u8 list"
  m_rfu :: u16
  m_stc :: "EDI_STC list"
  m_fc_valid :: bool
  m_fc :: EDI_FC

text \<open>
  \<open>assemble_eti_frame\<close> up to the finished frame. It has no check of its own that the
  streams fit: a frame that would run past the 6144 bytes of \<open>eti_frame_\<close> is a write
  out of range.
\<close>

definition assemble_eti_frame :: "EDI_Builder \<Rightarrow> eti_result" where
  "assemble_eti_frame edi =
     (if \<not> b_is_eti edi \<or> \<not> m_fc_valid edi \<or> fic_length edi = 0 then NoFrame
      else if (efc_mid (m_fc edi) = 3 \<and> fic_length edi \<noteq> 128) \<or>
              (efc_mid (m_fc edi) \<noteq> 3 \<and> fic_length edi \<noteq> 96) then NoFrame
      else if unat (efc_nst (m_fc edi)) > length (m_stc edi) \<or>
              unat (fic_length edi) > length (b_fic edi) then OutOfBounds
      else
        let fct = (word_of_nat (unat (efc_dflc (m_fc edi)) mod 250) :: u8);
            n = efc_nst (m_fc edi);
            streams = take (unat n) (m_stc edi);
            fl = eti_fl n (unat (fic_length edi)) (map stc_mst streams);
            head = eti_head
                     (eti_fc_bytes fct (efc_ficf (m_fc edi)) n (efc_fp (m_fc edi))
                        (efc_mid (m_fc edi)) fl)
                     (map (\<lambda>s. eti_stc_bytes (stc_scid s) (stc_sad s) (stc_tpl s)
                                  (length (stc_mst s))) streams)
                     (m_mnsc edi);
            hdr_crc = crc16 head;
            body = take (unat (fic_length edi)) (b_fic edi) @ concat (map stc_mst streams);
            mst_crc = crc16 body;
            used = eti_layout (eti_sync 0xFF fct) head hdr_crc body mst_crc
                     (m_rfu edi) (efc_tsta (m_fc edi))
        in if length used > ETI_NI_RAW_SIZE then OutOfBounds
           else Frame (eti_pad used))"

text \<open>
  \<open>parse_fc\<close> (dab\_parser.h) on the FC of a frame: the fields of the big-endian word in
  bytes 4 to 7.
\<close>

definition fc_word :: "u8 list \<Rightarrow> u32" where
  "fc_word frame = be32w (frame ! 4) (frame ! 5) (frame ! 6) (frame ! 7)"

definition fc_fct :: "u8 list \<Rightarrow> nat" where
  "fc_fct frame = unat (drop_bit 24 (fc_word frame) AND 0xFF)"

definition fc_ficf :: "u8 list \<Rightarrow> nat" where
  "fc_ficf frame = unat (drop_bit 23 (fc_word frame) AND 0x01)"

definition fc_nst :: "u8 list \<Rightarrow> nat" where
  "fc_nst frame = unat (drop_bit 16 (fc_word frame) AND 0x7F)"

definition fc_fp :: "u8 list \<Rightarrow> nat" where
  "fc_fp frame = unat (drop_bit 13 (fc_word frame) AND 0x07)"

definition fc_mid :: "u8 list \<Rightarrow> nat" where
  "fc_mid frame = unat (drop_bit 11 (fc_word frame) AND 0x03)"

definition fc_fl :: "u8 list \<Rightarrow> nat" where
  "fc_fl frame = unat (fc_word frame AND 0x7FF)"


section \<open>GSE fragment reassembly (parsers/gse\_parser.cpp)\<close>

record GseFragment =
  frag_data :: "u8 list"
  total_length :: nat
  current_pos :: nat
  active :: bool

text \<open>
  \<open>fragments_\<close> is the array of 256 buffers indexed by the fragment ID, a byte: a function
  from the ID. What \<open>callback_\<close> is called with is returned by each function.
\<close>

record GseParser =
  gse_fragments :: "u8 \<Rightarrow> GseFragment"
  gse_packet_count :: nat
  gse_fragment_count :: nat

definition GseFragment_new :: GseFragment where
  "GseFragment_new = \<lparr>frag_data = [], total_length = 0, current_pos = 0, active = False\<rparr>"

definition gse_reset :: GseParser where
  "gse_reset = \<lparr>gse_fragments = (\<lambda>i. GseFragment_new), gse_packet_count = 0, gse_fragment_count = 0\<rparr>"

text \<open>\<open>std::vector::resize\<close>: keeps the front, fills with zero bytes.\<close>

definition vector_resize :: "nat \<Rightarrow> u8 list \<Rightarrow> u8 list" where
  "vector_resize n xs = take n xs @ replicate (n - length xs) 0"

text \<open>\<open>memcpy(dst + pos, src, n)\<close> into a buffer that is long enough.\<close>

definition buf_write :: "u8 list \<Rightarrow> nat \<Rightarrow> u8 list \<Rightarrow> u8 list" where
  "buf_write dst pos src = take pos dst @ src @ drop (pos + length src) dst"

text \<open>
  \<open>emitIpv4Packet\<close>: the packets handed to the callback, none or one. The total length
  of the IP header is cut down to the bytes at hand, through a cast to 16 bits.
\<close>

definition emitIpv4Packet :: "u8 list \<Rightarrow> u8 list list" where
  "emitIpv4Packet ip_data =
     (let len = length ip_data in
      if len < 20 then []
      else if drop_bit 4 (ip_data ! 0) \<noteq> 4 then []
      else
        let ip_total_len = be16 (ip_data ! 2) (ip_data ! 3);
            n = (if ip_total_len > len then len mod 65536 else ip_total_len)
        in [take n ip_data])"

text \<open>
  \<open>handleCompleteGsePayload\<close>: the loop over the label lengths 0, 3 and 6 stops at the
  first that leaves 20 bytes and starts with an IPv4 version nibble.
\<close>

fun gse_try_labels :: "u8 list \<Rightarrow> nat list \<Rightarrow> u8 list list" where
  "gse_try_labels d [] = []"
| "gse_try_labels d (label_len # rest) =
     (if 2 + label_len + 20 > length d then gse_try_labels d rest
      else if d ! (2 + label_len) AND 0xF0 = 0x40
      then emitIpv4Packet (drop (2 + label_len) d)
      else gse_try_labels d rest)"

definition handleCompleteGsePayload :: "u8 list \<Rightarrow> u8 list list" where
  "handleCompleteGsePayload d =
     (if length d < 4 then []
      else if be16 (d ! 0) (d ! 1) \<noteq> 0x0800 then []
      else gse_try_labels d [0, 3, 6])"

text \<open>The header fields of a GSE packet.\<close>

definition gse_length :: "u8 list \<Rightarrow> nat" where
  "gse_length d = be16 (d ! 0 AND 0x0F) (d ! 1)"

definition gse_start :: "u8 list \<Rightarrow> bool" where
  "gse_start d = (drop_bit 7 (d ! 0) AND 1 \<noteq> 0)"

definition gse_stop :: "u8 list \<Rightarrow> bool" where
  "gse_stop d = (drop_bit 6 (d ! 0) AND 1 \<noteq> 0)"

definition gse_label_len :: "u8 list \<Rightarrow> nat" where
  "gse_label_len d =
     (let lt = drop_bit 4 (d ! 0) AND 3 in if lt = 0 then 6 else if lt = 1 then 3 else 0)"

text \<open>
  The accumulated bytes of a buffer, as the last fragment hands them on:
  \<open>frag.data.data() + 2\<close>, \<open>frag.current_pos - 2\<close> bytes.
\<close>

definition gse_accumulated :: "GseFragment \<Rightarrow> u8 list" where
  "gse_accumulated f = take (current_pos f - 2) (drop 2 (frag_data f))"

text \<open>The copy shared by middle and last fragments: only when the payload fits.\<close>

definition gse_append :: "GseFragment \<Rightarrow> u8 list \<Rightarrow> GseFragment" where
  "gse_append f payload =
     (if current_pos f + length payload \<le> length (frag_data f)
      then f\<lparr>frag_data := buf_write (frag_data f) (current_pos f) payload,
             current_pos := current_pos f + length payload\<rparr>
      else f)"

text \<open>
  The first fragment on the buffer \<open>old\<close> of its ID: the buffer is resized to the
  announced total length plus the two header bytes, the header is rebuilt with S and E
  set, and the bytes after FragID and TotalLength are copied when they fit.
\<close>

definition gse_first :: "GseFragment \<Rightarrow> u8 list \<Rightarrow> nat \<Rightarrow> GseFragment" where
  "gse_first old d total_len =
     (let buf = vector_resize (total_len + 2) (frag_data old);
          payload = take (gse_length d - 3) (drop 5 d);
          f = \<lparr>frag_data = buf[0 := d ! 0 OR 0xC0, 1 := d ! 1],
               total_length = total_len + 2, current_pos = 0, active = True\<rparr>
      in if 2 + length payload \<le> length (frag_data f)
         then f\<lparr>frag_data := buf_write (frag_data f) 2 payload, current_pos := 2 + length payload\<rparr>
         else f\<lparr>active := False\<rparr>)"

text \<open>
  \<open>processGsePacket\<close>: the returned flag, \<open>consumed\<close> (0 where the code leaves the
  caller's value), the parser afterwards and the IPv4 packets handed to the callback.
\<close>

definition processGsePacket :: "GseParser \<Rightarrow> u8 list \<Rightarrow> bool \<times> nat \<times> GseParser \<times> u8 list list" where
  "processGsePacket st d =
     (if length d < 2 then (False, 0, st, [])
      else if d ! 0 AND 0xF0 = 0 then (False, 0, st, [])
      else
        let gse_len = gse_length d; consumed = gse_len + 2 in
        if consumed > length d then (False, consumed, st, [])
        else if gse_start d \<and> gse_stop d
        then (True, consumed, st\<lparr>gse_packet_count := gse_packet_count st + 1\<rparr>,
              handleCompleteGsePayload (take gse_len (drop 2 d)))
        else if gse_start d \<and> \<not> gse_stop d
        then
          (if gse_len < 7 then (True, consumed, st, [])
           else
             let frag_id = d ! 2;
                 total_len = be16 (d ! 3) (d ! 4);
                 proto_offset = 5 + gse_label_len d
             in if proto_offset + 2 > gse_len + 2 then (True, consumed, st, [])
                else if be16 (d ! proto_offset) (d ! (proto_offset + 1)) \<noteq> 0x0800
                then (True, consumed, st, [])
                else if total_len > 2000 \<or> total_len < 28 then (True, consumed, st, [])
                else (True, consumed,
                      st\<lparr>gse_fragments := (gse_fragments st)
                            (frag_id := gse_first (gse_fragments st frag_id) d total_len),
                         gse_fragment_count := gse_fragment_count st + 1\<rparr>, []))
        else if \<not> gse_start d \<and> \<not> gse_stop d
        then
          (if gse_len < 1 then (True, consumed, st, [])
           else
             let frag_id = d ! 2; frag = gse_fragments st frag_id in
             if \<not> active frag then (True, consumed, st, [])
             else (True, consumed,
                   st\<lparr>gse_fragments := (gse_fragments st)
                         (frag_id := gse_append frag (take (gse_len - 1) (drop 3 d))),
                      gse_fragment_count := gse_fragment_count st + 1\<rparr>, []))
        else
          (if gse_len < 5 then (True, consumed, st, [])
           else
             let frag_id = d ! 2; frag = gse_fragments st frag_id in
             if \<not> active frag then (True, consumed, st, [])
             else
               let frag' = gse_append frag (take (gse_len - 5) (drop 3 d))
               in (True, consumed,
                   st\<lparr>gse_fragments := (gse_fragments st)(frag_id := frag'\<lparr>active := False\<rparr>),
                      gse_packet_count := gse_packet_count st + 1,
                      gse_fragment_count := gse_fragment_count st + 1\<rparr>,
                   handleCompleteGsePayload (gse_accumulated frag'))))"

text \<open>A run of GSE packets through \<open>processGsePacket\<close>: the parser and the emissions of each call.\<close>

definition gse_step :: "GseParser \<Rightarrow> u8 list \<Rightarrow> GseParser \<times> u8 list list" where
  "gse_step st d = (case processGsePacket st d of (ok, consumed, st', out) \<Rightarrow> (st', out))"

definition gse_run :: "GseParser \<Rightarrow> u8 list list \<Rightarrow> GseParser \<times> u8 list list list" where
  "gse_run = run_steps gse_step"


section \<open>FIC parser (dab\_parser.cpp, DABParser)\<close>

text \<open>
  The structures of dab\_parser.h. A field of type \<open>int\<close> or \<open>bool\<close> that a declaration
  without initialiser leaves unwritten (\<open>SubChannel sc;\<close>, \<open>DABService svc;\<close>) holds an
  optional value: \<open>None\<close> until the code assigns it. Labels are the bytes of the
  \<open>std::string\<close>. The members that only feed the log (the debug counters other than
  \<open>eti_call_count_\<close>, the first-seen times, \<open>packet_mode_map_\<close>) are left out: nothing
  reads them.
\<close>

record SubChannel =
  subchid :: int
  startaddr :: int
  subchsz :: int
  sc_bitrate :: int
  eepprot :: int
  protlvl :: "int option"
  uep_indx :: "int option"
  sc_dabplus :: int

record ServiceInfo =
  si_sid :: u32
  primary_subch :: int
  secondary_subch :: int

record DABService =
  sid :: u32
  label :: "u8 list"
  bitrate :: "int option"
  subchannel_id :: "int option"
  start_addr :: "int option"
  subchannel_size :: "int option"
  dabplus :: "bool option"
  protection_level :: "int option"
  eep_protection :: "bool option"

record DABEnsemble =
  eid :: u16
  ens_label :: "u8 list"
  services :: "DABService list"

record DABParser =
  dab_subchannels :: "(int \<times> SubChannel) list"
  service_map :: "(u32 \<times> ServiceInfo) list"
  service_labels :: "(u32 \<times> u8 list) list"
  ensemble_label :: "u8 list"
  ensemble_id :: u16
  labelled :: bool
  basic_ready :: bool
  ensemble :: DABEnsemble
  last_basic_service_count :: nat
  basic_stable_frames :: nat
  last_service_count :: nat
  stable_frames :: nat
  eti_call_count :: int

definition DABEnsemble_new :: DABEnsemble where
  "DABEnsemble_new = \<lparr>eid = 0, ens_label = [], services = []\<rparr>"

text \<open>The constructor, which ends in \<open>reset()\<close>.\<close>

definition DABParser_new :: DABParser where
  "DABParser_new =
     \<lparr>dab_subchannels = [], service_map = [], service_labels = [], ensemble_label = [],
      ensemble_id = 0, labelled = False, basic_ready = False, ensemble = DABEnsemble_new,
      last_basic_service_count = 0, basic_stable_frames = 0, last_service_count = 0,
      stable_frames = 0, eti_call_count = 0\<rparr>"

definition ETI_NI_FSYNC0 :: u32 where
  "ETI_NI_FSYNC0 = 0xFFF8C549"

definition ETI_NI_FSYNC1 :: u32 where
  "ETI_NI_FSYNC1 = 0xFF073AB6"

definition uep_bitrates :: "int list" where
  "uep_bitrates =
     [32, 32, 32, 32, 32,
      48, 48, 48, 48, 48,
      56, 56, 56, 56,
      64, 64, 64, 64, 64, 64, 64,
      80, 80, 80, 80, 80, 80,
      96, 96, 96, 96, 96, 96,
      112, 112, 112, 112,
      128, 128, 128, 128, 128, 128, 128,
      160, 160, 160, 160, 160, 160,
      192, 192, 192, 192, 192, 192, 192,
      224, 224, 224, 224, 224,
      256, 256, 256]"

definition get_eep_bitrate :: "int \<Rightarrow> int \<Rightarrow> int" where
  "get_eep_bitrate sz lvl =
     (if lvl = 0 then sz div 12 * 8
      else if lvl = 1 then sz div 8 * 8
      else if lvl = 2 then sz div 6 * 8
      else if lvl = 3 then sz div 4 * 8
      else if lvl = 4 then sz div 27 * 8
      else if lvl = 5 then sz div 21 * 8
      else if lvl = 6 then sz div 18 * 8
      else if lvl = 7 then sz div 15 * 8
      else 0)"

text \<open>
  \<open>latin1_to_utf8\<close> stops at the first zero byte; the callers first overwrite the
  trailing spaces and zero bytes of the 16 label bytes with zero.
\<close>

fun latin1_to_utf8 :: "u8 list \<Rightarrow> u8 list" where
  "latin1_to_utf8 [] = []"
| "latin1_to_utf8 (c # cs) =
     (if c = 0 then []
      else if c < 0x80 then c # latin1_to_utf8 cs
      else (0xC0 OR drop_bit 6 c) # (0x80 OR (c AND 0x3F)) # latin1_to_utf8 cs)"

definition trim_label :: "u8 list \<Rightarrow> u8 list" where
  "trim_label l =
     (let kept = rev (dropWhile (\<lambda>c. c = 0x20 \<or> c = 0) (rev l))
      in kept @ replicate (length l - length kept) 0)"

definition fig_label :: "u8 list \<Rightarrow> u8 list" where
  "fig_label data = latin1_to_utf8 (trim_label (take 16 (drop 2 data)))"

text \<open>\<open>FIG 0/0\<close>: the ensemble identifier.\<close>

definition fig_0_0 :: "u8 list \<Rightarrow> DABParser \<Rightarrow> DABParser" where
  "fig_0_0 data st =
     (if length data < 4 then st
      else
        let e = (word_of_nat (be16 (data ! 0) (data ! 1)) :: u16)
        in if ensemble_id st = 0 \<or> ensemble_id st \<noteq> e then st\<lparr>ensemble_id := e\<rparr> else st)"

text \<open>
  \<open>FIG 0/1\<close>: one sub-channel of the loop, short form (3 bytes) or long form (4 bytes),
  the \<open>dabplus\<close> flag of an entry already in the map being kept.
\<close>

definition fig_0_1_entry :: "u8 list \<Rightarrow> (int \<times> SubChannel) list \<Rightarrow> SubChannel" where
  "fig_0_1_entry data subs =
     (let id = uint (drop_bit 2 (data ! 0) AND 0x3F);
          start = int (be16 (data ! 0 AND 0x03) (data ! 1));
          dp = (case map_find subs id of Some sc \<Rightarrow> sc_dabplus sc | None \<Rightarrow> 0)
      in if drop_bit 7 (data ! 2) AND 0x01 = 0
         then
           let table_index = unat (data ! 2 AND 0x3F)
           in \<lparr>subchid = id, startaddr = start, subchsz = 0,
               sc_bitrate = uep_bitrates ! table_index, eepprot = 0, protlvl = None,
               uep_indx = Some (int table_index), sc_dabplus = dp\<rparr>
         else
           let sz = int (be16 (data ! 2 AND 0x03) (data ! 3));
               lvl = uint (drop_bit 2 (data ! 2) AND 0x03)
                     + (if drop_bit 4 (data ! 2) AND 0x07 \<noteq> 0 then 4 else 0)
           in \<lparr>subchid = id, startaddr = start, subchsz = sz,
               sc_bitrate = get_eep_bitrate sz lvl, eepprot = 1, protlvl = Some lvl,
               uep_indx = None, sc_dabplus = dp\<rparr>)"

fun fig_0_1 :: "u8 list \<Rightarrow> DABParser \<Rightarrow> DABParser" where
  "fig_0_1 data st =
     (if length data < 3 then st
      else
        let long_form = (drop_bit 7 (data ! 2) AND 0x01 \<noteq> 0) in
        if long_form \<and> length data < 4 then st
        else
          let sc = fig_0_1_entry data (dab_subchannels st)
          in fig_0_1 (drop (if long_form then 4 else 3) data)
               (st\<lparr>dab_subchannels := map_put (subchid sc) sc (dab_subchannels st)\<rparr>))"

declare fig_0_1.simps [simp del]

text \<open>
  \<open>FIG 0/2\<close>: the components of one service. The loop runs \<open>num_components\<close> times at
  most and stops when fewer than two bytes are left; it returns the bytes not yet read.
\<close>

definition fig_0_2_component ::
  "u8 list \<Rightarrow> ServiceInfo \<times> (int \<times> SubChannel) list \<Rightarrow> ServiceInfo \<times> (int \<times> SubChannel) list" where
  "fig_0_2_component data acc =
     (let info = fst acc; subs = snd acc;
          tmid = drop_bit 6 (data ! 0) AND 0x03;
          ascty = data ! 0 AND 0x3F;
          id = uint (drop_bit 2 (data ! 1) AND 0x3F);
          primary = (drop_bit 1 (data ! 1) AND 0x01 \<noteq> 0)
      in if tmid = 0
         then
           let subs' = (case map_find subs id of
                          Some sc \<Rightarrow> map_put id (sc\<lparr>sc_dabplus := (if ascty = 63 then 1 else 0)\<rparr>) subs
                        | None \<Rightarrow> subs)
           in if primary \<and> primary_subch info < 0 then (info\<lparr>primary_subch := id\<rparr>, subs')
              else if secondary_subch info < 0 then (info\<lparr>secondary_subch := id\<rparr>, subs')
              else (info, subs')
         else if tmid = 1
         then (if primary \<and> primary_subch info < 0 then (info\<lparr>primary_subch := id\<rparr>, subs)
               else (info, subs))
         else (info, subs))"

fun fig_0_2_components ::
  "nat \<Rightarrow> u8 list \<Rightarrow> ServiceInfo \<times> (int \<times> SubChannel) list
   \<Rightarrow> u8 list \<times> ServiceInfo \<times> (int \<times> SubChannel) list" where
  "fig_0_2_components 0 data acc = (data, acc)"
| "fig_0_2_components (Suc n) data acc =
     (if length data < 2 then (data, acc)
      else fig_0_2_components n (drop 2 data) (fig_0_2_component data acc))"

text \<open>The bytes of one service entry before its components: 2 or 4 for the SId, 1 for the count.\<close>

definition fig_0_2_sid :: "bool \<Rightarrow> u8 list \<Rightarrow> u32" where
  "fig_0_2_sid pd data =
     (if pd then be32w (data ! 0) (data ! 1) (data ! 2) (data ! 3)
      else word_of_nat (be16 (data ! 0) (data ! 1)))"

definition fig_0_2_service :: "bool \<Rightarrow> u8 list \<Rightarrow> DABParser \<Rightarrow> u8 list \<times> DABParser" where
  "fig_0_2_service pd data st =
     (let s = fig_0_2_sid pd data;
          d1 = drop (if pd then 4 else 2) data;
          num_components = unat (d1 ! 0 AND 0x0F);
          r = fig_0_2_components num_components (drop 1 d1)
                (\<lparr>si_sid = s, primary_subch = - 1, secondary_subch = - 1\<rparr>, dab_subchannels st);
          info = fst (snd r);
          st1 = st\<lparr>dab_subchannels := snd (snd r)\<rparr>
      in (fst r,
          if primary_subch info \<ge> 0
          then st1\<lparr>service_map := map_put s info (service_map st1)\<rparr> else st1))"

function fig_0_2 :: "bool \<Rightarrow> u8 list \<Rightarrow> DABParser \<Rightarrow> DABParser" where
  "fig_0_2 pd data st =
     (if length data < (if pd then 5 else 3) then st
      else fig_0_2 pd (fst (fig_0_2_service pd data st)) (snd (fig_0_2_service pd data st)))"
  by pat_completeness auto

termination fig_0_2
proof (relation "measure (\<lambda>(pd, data, st). length data)")
  show "wf (measure (\<lambda>(pd, data, st). length data))"
    by simp
next
  fix pd :: bool and data :: "u8 list" and st :: DABParser
  assume long: "\<not> length data < (if pd then 5 else 3)"
  let ?k = "if pd then 4 else 2"
  have shorter: "length (fst (fig_0_2_components n d acc)) \<le> length d" for n d acc
    by (induction n d acc rule: fig_0_2_components.induct) auto
  have "length (fst (fig_0_2_service pd data st)) \<le> length (drop 1 (drop ?k data))"
    unfolding fig_0_2_service_def Let_def fst_conv by (rule shorter)
  also have "\<dots> < length data"
    using long by (auto split: if_splits)
  finally show "((pd, fst (fig_0_2_service pd data st), snd (fig_0_2_service pd data st)),
                 (pd, data, st)) \<in> measure (\<lambda>(pd, data, st). length data)"
    by (simp add: case_prod_unfold)
qed

declare fig_0_2.simps [simp del]

text \<open>
  \<open>process_fig_0\<close>. Extensions 3, 8 and 13 write the log and \<open>packet_mode_map_\<close> only.
\<close>

definition process_fig_0 :: "u8 list \<Rightarrow> nat \<Rightarrow> bool \<Rightarrow> DABParser \<Rightarrow> DABParser" where
  "process_fig_0 data ext pd st =
     (if ext = 0 then fig_0_0 data st
      else if ext = 1 then fig_0_1 data st
      else if ext = 2 then fig_0_2 pd data st
      else st)"

text \<open>\<open>process_fig_1\<close>: the ensemble label (extension 0) and the service labels (extension 1).\<close>

definition process_fig_1 :: "u8 list \<Rightarrow> nat \<Rightarrow> DABParser \<Rightarrow> DABParser" where
  "process_fig_1 data ext st =
     (if length data < 2 then st
      else if ext = 0
      then (if length data < 18 then st
            else st\<lparr>ensemble_id := word_of_nat (be16 (data ! 0) (data ! 1)),
                    ensemble_label := fig_label data\<rparr>)
      else if ext = 1
      then (if length data < 20 then st
            else st\<lparr>service_labels :=
                      map_put (word_of_nat (be16 (data ! 0) (data ! 1))) (fig_label data)
                        (service_labels st)\<rparr>)
      else st)"

text \<open>
  \<open>process_fig\<close>, on the header byte \<open>fig[-1]\<close> and the \<open>fig_len\<close> bytes that follow it.
\<close>

definition process_fig :: "u8 \<Rightarrow> u8 list \<Rightarrow> DABParser \<Rightarrow> DABParser" where
  "process_fig hdr fig st =
     (if length fig < 1 then st
      else
        let fig_type = drop_bit 5 hdr AND 0x07;
            ext = unat (fig ! 0 AND 0x1F);
            pd = (drop_bit 5 (fig ! 0) AND 0x01 \<noteq> 0)
        in if fig_type = 0 then process_fig_0 (drop 1 fig) ext pd st
           else if fig_type = 1 then process_fig_1 (drop 1 fig) ext st
           else st)"

definition fib_crc_ok :: "u8 list \<Rightarrow> bool" where
  "fib_crc_ok fib = (unat (crc16 (take 30 fib)) = be16 (fib ! 30) (fib ! 31))"

text \<open>The loop of \<open>process_fib\<close> over the FIGs of a FIB of 32 bytes, from position \<open>pos\<close>.\<close>

function fib_figs :: "u8 list \<Rightarrow> nat \<Rightarrow> DABParser \<Rightarrow> DABParser" where
  "fib_figs fib pos st =
     (if \<not> pos < 30 then st
      else if fib ! pos = 0xFF then st
      else
        let fig_len = unat (fib ! pos AND 0x1F) in
        if pos + 1 + fig_len > 30 then st
        else fib_figs fib (pos + 1 + fig_len)
               (process_fig (fib ! pos) (take fig_len (drop (pos + 1) fib)) st))"
  by pat_completeness auto
termination
  by (relation "measure (\<lambda>(fib, pos, st). 30 - pos)") auto

declare fib_figs.simps [simp del]

definition process_fib :: "u8 list \<Rightarrow> DABParser \<Rightarrow> DABParser" where
  "process_fib fib st = (if fib_crc_ok fib then fib_figs fib 0 st else st)"

fun process_fic :: "u8 list \<Rightarrow> DABParser \<Rightarrow> DABParser" where
  "process_fic fic_data st =
     (if length fic_data < 32 then st
      else process_fic (drop 32 fic_data) (process_fib (take 32 fic_data) st))"

declare process_fic.simps [simp del]

text \<open>
  \<open>build_ensemble\<close>. A service whose primary sub-channel is not in \<open>subchannels_\<close> is
  pushed all the same, with the fields of the sub-channel never written. The services
  come out of the map in increasing SId and \<open>std::sort\<close> orders them by SId.
\<close>

definition build_service :: "DABParser \<Rightarrow> u32 \<times> ServiceInfo \<Rightarrow> DABService" where
  "build_service st e =
     (let svc = \<lparr>sid = fst e,
                 label = (case map_find (service_labels st) (fst e) of Some l \<Rightarrow> l | None \<Rightarrow> []),
                 bitrate = None, subchannel_id = None, start_addr = None,
                 subchannel_size = None, dabplus = None, protection_level = None,
                 eep_protection = None\<rparr>
      in case map_find (dab_subchannels st) (primary_subch (snd e)) of
           None \<Rightarrow> svc
         | Some sc \<Rightarrow>
             svc\<lparr>subchannel_id := Some (subchid sc), start_addr := Some (startaddr sc),
                 subchannel_size := Some (subchsz sc), bitrate := Some (sc_bitrate sc),
                 dabplus := Some (sc_dabplus sc = 1), protection_level := protlvl sc,
                 eep_protection := Some (eepprot sc = 1)\<rparr>)"

definition build_ensemble :: "DABParser \<Rightarrow> DABParser" where
  "build_ensemble st =
     st\<lparr>ensemble :=
          \<lparr>eid = ensemble_id st, ens_label = ensemble_label st,
           services = sort_key sid
             (map (build_service st) (filter (\<lambda>e. primary_subch (snd e) \<ge> 0) (service_map st)))\<rparr>\<rparr>"

text \<open>
  The two detectors of \<open>process_eti_frame\<close>, in the order of the code: basic readiness
  after 3 stable frames of the count of services with a known sub-channel, completion
  after 10 stable frames of the count of services.
\<close>

definition valid_services :: "DABParser \<Rightarrow> nat" where
  "valid_services st =
     length (filter (\<lambda>e. primary_subch (snd e) \<ge> 0
                         \<and> map_find (dab_subchannels st) (primary_subch (snd e)) \<noteq> None)
               (service_map st))"

definition basic_ready_check :: "DABParser \<Rightarrow> DABParser" where
  "basic_ready_check st =
     (if \<not> basic_ready st \<and> service_map st \<noteq> [] \<and> valid_services st > 0
      then
        let st1 = (if valid_services st \<noteq> last_basic_service_count st
                   then st\<lparr>last_basic_service_count := valid_services st, basic_stable_frames := 0\<rparr>
                   else st\<lparr>basic_stable_frames := basic_stable_frames st + 1\<rparr>)
        in if basic_stable_frames st1 \<ge> 3 then st1\<lparr>basic_ready := True\<rparr> else st1
      else st)"

definition labelled_count :: "DABParser \<Rightarrow> nat" where
  "labelled_count st =
     length (filter (\<lambda>e. map_find (service_labels st) (fst e) \<noteq> None) (service_map st))"

definition completion_check :: "DABParser \<Rightarrow> DABParser \<times> bool" where
  "completion_check st =
     (if service_map st \<noteq> []
      then
        let has_ensemble_label = (ensemble_label st \<noteq> []);
            st1 = (if length (service_map st) \<noteq> last_service_count st
                   then st\<lparr>last_service_count := length (service_map st), stable_frames := 0\<rparr>
                   else st\<lparr>stable_frames := stable_frames st + 1\<rparr>);
            all_labelled = (labelled_count st = length (service_map st) \<and> has_ensemble_label);
            stable = (stable_frames st1 \<ge> 10)
        in if all_labelled \<and> stable then (st1\<lparr>labelled := True\<rparr>, True) else (st1, False)
      else (st, False))"

text \<open>
  Whether a frame gets as far as \<open>process_fic\<close> in a parser that is not complete:
  8 bytes at least, one of the two sync words, the FIC flag set, and the FIC within
  the frame.
\<close>

definition frame_fic_len :: "u8 list \<Rightarrow> nat" where
  "frame_fic_len frame = (if fc_mid frame = 3 then 32 else 24) * 4"

definition frame_stc_end :: "u8 list \<Rightarrow> nat" where
  "frame_stc_end frame = 8 + fc_nst frame * 4 + 4"

definition frame_sync :: "u8 list \<Rightarrow> u32" where
  "frame_sync frame = be32w (frame ! 0) (frame ! 1) (frame ! 2) (frame ! 3)"

definition process_eti_frame :: "DABParser \<Rightarrow> u8 list \<Rightarrow> DABParser \<times> bool" where
  "process_eti_frame st frame =
     (let st0 = st\<lparr>eti_call_count := eti_call_count st + 1\<rparr> in
      if labelled st0 then (st0, True)
      else if length frame < 8 then (st0, False)
      else if frame_sync frame \<noteq> ETI_NI_FSYNC0 \<and> frame_sync frame \<noteq> ETI_NI_FSYNC1
      then (st0, False)
      else if fc_ficf frame = 0 then (st0, labelled st0)
      else if frame_stc_end frame + frame_fic_len frame > length frame then (st0, labelled st0)
      else
        let st1 = process_fic (take (frame_fic_len frame) (drop (frame_stc_end frame) frame)) st0;
            st2 = (if service_map st1 \<noteq> [] then build_ensemble st1 else st1);
            st3 = basic_ready_check st2
        in completion_check st3)"

text \<open>A parser fed a list of frames from its construction.\<close>

definition dab_run :: "u8 list list \<Rightarrow> DABParser" where
  "dab_run frames = fst (run_steps process_eti_frame DABParser_new frames)"

section \<open>Ensemble manager (ensemble\_manager.cpp)\<close>

text \<open>
  A stream is keyed by the destination address and port. The callbacks are observed as
  events, in the order of the calls; a callback member is the flag that it has been set.
  \<open>basic_ready_flags_\<close> and \<open>complete_flags_\<close> are read through \<open>operator[]\<close>, for which
  an absent key reads as false: they are total functions. A stream parser is held as its
  FIC parser, the only part of it the manager asks; what the rest of the stream parser
  (PF reassembly, tag decoding, frame assembly) makes of a UDP payload is an input of
  \<open>processUdp\<close> here: the ETI frame handed to \<open>fic_parser_.process_eti_frame\<close> with its
  DFLC, if the payload completed one.
\<close>

type_synonym StreamKey = "u32 \<times> u16"

record SubchannelChange =
  ch_sid :: u32
  old_subchannel_id :: "u8 option"
  new_subchannel_id :: "u8 option"

datatype em_event =
    BasicReady StreamKey DABEnsemble
  | EtiFrame StreamKey "u8 list" u16
  | Complete StreamKey DABEnsemble
  | SubchannelChanges StreamKey "SubchannelChange list"

record EnsembleManager =
  parsers :: "StreamKey \<Rightarrow> DABParser option"
  etina_parsers :: "u16 \<Rightarrow> DABParser option"
  ensembles :: "StreamKey \<Rightarrow> DABEnsemble option"
  basic_ready_flags :: "StreamKey \<Rightarrow> bool"
  complete_flags :: "StreamKey \<Rightarrow> bool"
  last_subchannel_map :: "StreamKey \<Rightarrow> (u32 \<times> u8 option) list"
  complete_count :: nat
  basic_ready_callback :: bool
  complete_callback :: bool
  eti_callback :: bool
  subchannel_change_callback :: bool

text \<open>A manager after its construction and the setters of the callbacks named.\<close>

definition EnsembleManager_new :: "bool \<Rightarrow> bool \<Rightarrow> bool \<Rightarrow> bool \<Rightarrow> EnsembleManager" where
  "EnsembleManager_new on_basic on_complete on_eti on_change =
     \<lparr>parsers = (\<lambda>k. None), etina_parsers = (\<lambda>p. None), ensembles = (\<lambda>k. None),
      basic_ready_flags = (\<lambda>k. False), complete_flags = (\<lambda>k. False),
      last_subchannel_map = (\<lambda>k. []), complete_count = 0,
      basic_ready_callback = on_basic, complete_callback = on_complete,
      eti_callback = on_eti, subchannel_change_callback = on_change\<rparr>"

text \<open>
  \<open>static_cast<uint8_t>(svc.subchannel_id)\<close>, and the map from SId to that byte which
  \<open>processUdp\<close> fills from a list of services, by assignments through \<open>operator[]\<close>.
\<close>

definition subchannel_byte :: "DABService \<Rightarrow> u8 option" where
  "subchannel_byte svc = map_option word_of_int (subchannel_id svc)"

definition fill_subchannel_map ::
  "(u32 \<times> u8 option) list \<Rightarrow> DABService list \<Rightarrow> (u32 \<times> u8 option) list" where
  "fill_subchannel_map m svcs = foldl (\<lambda>m svc. map_put (sid svc) (subchannel_byte svc) m) m svcs"

text \<open>The changes \<open>processUdp\<close> collects: new and moved services, then removed ones.\<close>

definition changed_services ::
  "(u32 \<times> u8 option) list \<Rightarrow> (u32 \<times> u8 option) list \<Rightarrow> SubchannelChange list" where
  "changed_services prev_map current_map =
     concat (map (\<lambda>e. case map_find prev_map (fst e) of
                         None \<Rightarrow> [\<lparr>ch_sid = fst e, old_subchannel_id = Some 0xFF,
                                   new_subchannel_id = snd e\<rparr>]
                       | Some old \<Rightarrow>
                           if old \<noteq> snd e
                           then [\<lparr>ch_sid = fst e, old_subchannel_id = old,
                                  new_subchannel_id = snd e\<rparr>]
                           else [])
                 current_map)"

definition removed_services ::
  "(u32 \<times> u8 option) list \<Rightarrow> (u32 \<times> u8 option) list \<Rightarrow> SubchannelChange list" where
  "removed_services prev_map current_map =
     concat (map (\<lambda>e. case map_find current_map (fst e) of
                         None \<Rightarrow> [\<lparr>ch_sid = fst e, old_subchannel_id = snd e,
                                   new_subchannel_id = Some 0xFF\<rparr>]
                       | Some new \<Rightarrow> [])
                 prev_map)"

text \<open>\<open>getParser\<close>: the parser of the stream, created with both flags cleared when absent.\<close>

definition getParser :: "StreamKey \<Rightarrow> EnsembleManager \<Rightarrow> EnsembleManager" where
  "getParser key m =
     (case parsers m key of
        Some p \<Rightarrow> m
      | None \<Rightarrow> m\<lparr>parsers := (parsers m)(key := Some DABParser_new),
                  basic_ready_flags := (basic_ready_flags m)(key := False),
                  complete_flags := (complete_flags m)(key := False)\<rparr>)"

definition parser_of :: "DABParser option \<Rightarrow> DABParser" where
  "parser_of p = (case p of Some q \<Rightarrow> q | None \<Rightarrow> DABParser_new)"

text \<open>
  The three notifications of \<open>processUdp\<close> after the call of the parser \<open>p\<close>: basic
  readiness, completion, and the watch for sub-channel changes.
\<close>

definition notify_basic_ready ::
  "StreamKey \<Rightarrow> DABParser \<Rightarrow> EnsembleManager \<Rightarrow> EnsembleManager \<times> em_event list" where
  "notify_basic_ready key p m =
     (if basic_ready p \<and> \<not> basic_ready_flags m key
      then (m\<lparr>basic_ready_flags := (basic_ready_flags m)(key := True)\<rparr>,
            if basic_ready_callback m then [BasicReady key (ensemble p)] else [])
      else (m, []))"

definition udp_notify_complete ::
  "StreamKey \<Rightarrow> DABParser \<Rightarrow> EnsembleManager \<Rightarrow> EnsembleManager \<times> em_event list" where
  "udp_notify_complete key p m =
     (if labelled p \<and> \<not> complete_flags m key
      then (m\<lparr>complete_flags := (complete_flags m)(key := True),
               complete_count := complete_count m + 1,
               ensembles := (ensembles m)(key := Some (ensemble p)),
               last_subchannel_map := (last_subchannel_map m)
                 (key := fill_subchannel_map (last_subchannel_map m key) (services (ensemble p)))\<rparr>,
            if complete_callback m then [Complete key (ensemble p)] else [])
      else (m, []))"

definition watch_subchannels ::
  "StreamKey \<Rightarrow> DABParser \<Rightarrow> EnsembleManager \<Rightarrow> EnsembleManager \<times> em_event list" where
  "watch_subchannels key p m =
     (if complete_flags m key \<and> subchannel_change_callback m
      then
        let prev_map = last_subchannel_map m key;
            current_map = fill_subchannel_map [] (services (ensemble p));
            changes = changed_services prev_map current_map @ removed_services prev_map current_map
        in if changes \<noteq> []
           then (m\<lparr>last_subchannel_map := (last_subchannel_map m)(key := current_map)\<rparr>,
                 [SubchannelChanges key changes])
           else (m, [])
      else (m, []))"

definition processUdp ::
  "EnsembleManager \<Rightarrow> StreamKey \<times> (u8 list \<times> u16) option \<Rightarrow> EnsembleManager \<times> em_event list" where
  "processUdp m x =
     (let key = fst x;
          m0 = getParser key m;
          p0 = parser_of (parsers m0 key);
          p = (case snd x of None \<Rightarrow> p0 | Some eti \<Rightarrow> fst (process_eti_frame p0 (fst eti)));
          ev0 = (case snd x of
                   None \<Rightarrow> []
                 | Some eti \<Rightarrow> if eti_callback m0 then [EtiFrame key (fst eti) (snd eti)] else []);
          m1 = m0\<lparr>parsers := (parsers m0)(key := Some p)\<rparr>;
          r2 = notify_basic_ready key p m1;
          r3 = udp_notify_complete key p (fst r2);
          r4 = watch_subchannels key p (fst r3)
      in (fst r4, ev0 @ snd r2 @ snd r3 @ snd r4))"

text \<open>\<open>processEtiFrame\<close>: the stream of a PID has the key \<open>{pid, 0}\<close>.\<close>

definition etina_key :: "u16 \<Rightarrow> StreamKey" where
  "etina_key pid = (ucast pid, 0)"

definition etina_parser :: "u16 \<Rightarrow> EnsembleManager \<Rightarrow> EnsembleManager" where
  "etina_parser pid m =
     (case etina_parsers m pid of
        Some p \<Rightarrow> m
      | None \<Rightarrow> m\<lparr>etina_parsers := (etina_parsers m)(pid := Some DABParser_new),
                  basic_ready_flags := (basic_ready_flags m)(etina_key pid := False),
                  complete_flags := (complete_flags m)(etina_key pid := False)\<rparr>)"

definition eti_notify_complete ::
  "StreamKey \<Rightarrow> DABParser \<Rightarrow> EnsembleManager \<Rightarrow> EnsembleManager \<times> em_event list" where
  "eti_notify_complete key p m =
     (if labelled p \<and> \<not> complete_flags m key
      then (m\<lparr>complete_flags := (complete_flags m)(key := True),
               complete_count := complete_count m + 1,
               ensembles := (ensembles m)(key := Some (ensemble p))\<rparr>,
            if complete_callback m then [Complete key (ensemble p)] else [])
      else (m, []))"

definition processEtiFrame ::
  "EnsembleManager \<Rightarrow> u16 \<times> u8 list \<Rightarrow> EnsembleManager \<times> em_event list" where
  "processEtiFrame m x =
     (let pid = fst x; eti_ni = snd x; key = etina_key pid;
          m0 = etina_parser pid m;
          p = fst (process_eti_frame (parser_of (etina_parsers m0 pid)) eti_ni);
          m1 = m0\<lparr>etina_parsers := (etina_parsers m0)(pid := Some p)\<rparr>;
          r2 = notify_basic_ready key p m1;
          ev = (if eti_callback (fst r2) then [EtiFrame key eti_ni 0] else []);
          r3 = eti_notify_complete key p (fst r2)
      in (fst r3, snd r2 @ ev @ snd r3))"

section \<open>Vocabulary of the reassembly properties\<close>

text \<open>
  One fragment of the sequence \<open>p\<close> of \<open>N\<close> fragments whose payloads are \<open>pay 0\<close>, \<open>pay 1\<close>,
  ...: a header with that Pseq and Fcount, an index below \<open>N\<close>, and a packet that holds
  the payload of that index after the header.
\<close>

definition pf_frag_ok :: "u16 \<Rightarrow> u32 \<Rightarrow> (nat \<Rightarrow> u8 list) \<Rightarrow> PF_Header \<times> u8 list \<Rightarrow> bool" where
  "pf_frag_ok p N pay x =
     (case x of (h, pkt) \<Rightarrow>
        pseq h = p \<and> fcount h = N \<and> findex h < N \<and>
        pf_hdr_size h + unat (plen h) \<le> length pkt \<and>
        pf_payload h pkt = pay (unat (findex h)))"

text \<open>
  The collector of \<open>p\<close> is idle: absent, never initialised, or finished. This is the
  condition under which \<open>add_fragment\<close> starts a new round for \<open>p\<close>.
\<close>

definition pf_idle :: "u16 \<Rightarrow> PF_Reassembler \<Rightarrow> bool" where
  "pf_idle p st =
     (case map_find (collectors st) p of
        None \<Rightarrow> True
      | Some c \<Rightarrow> c_fcount c = 0 \<or> processed c)"

text \<open>
  The state in the middle of a round: exactly the indices in \<open>S\<close> have been stored for
  \<open>p\<close>, each with its payload, and \<open>S\<close> is not yet all of \<open>0..<N\<close>.
\<close>

definition pf_round :: "u16 \<Rightarrow> u32 \<Rightarrow> (nat \<Rightarrow> u8 list) \<Rightarrow> nat set \<Rightarrow> PF_Reassembler \<Rightarrow> bool" where
  "pf_round p N pay S st =
     (map_sorted (collectors st) \<and> S \<subseteq> {0..<unat N} \<and> S \<noteq> {0..<unat N} \<and>
      (case map_find (collectors st) p of
         None \<Rightarrow> S = {}
       | Some c \<Rightarrow>
           if c_fcount c = 0 \<or> processed c then S = {}
           else c_fcount c = N \<and> unat (fragments_collected c) = card S \<and>
                (\<forall>i<unat N. map_find (fragments c) (word_of_nat i) =
                                (if i \<in> S then Some (pay i) else None))))"

text \<open>The same for a packet fed to \<open>EdiParser::feed\<close>, and the state in the middle of its round.\<close>

definition edi_frag_ok :: "u16 \<Rightarrow> u32 \<Rightarrow> (nat \<Rightarrow> u8 list) \<Rightarrow> u8 list \<Rightarrow> bool" where
  "edi_frag_ok p N pay d =
     (14 \<le> length d \<and> d ! 0 = 0x50 \<and> d ! 1 = 0x46 \<and>
      edi_pseq d = p \<and> edi_fcount d = N \<and> edi_findex d < N \<and>
      edi_hdr_size d + edi_plen d \<le> length d \<and>
      edi_payload d = pay (unat (edi_findex d)))"

definition edi_round ::
  "u16 \<Rightarrow> u32 \<Rightarrow> (nat \<Rightarrow> u8 list) \<Rightarrow> nat set \<Rightarrow> (u16 \<times> PfCollector) list \<Rightarrow> bool" where
  "edi_round p N pay S cs =
     (S \<subseteq> {0..<unat N} \<and> S \<noteq> {0..<unat N} \<and>
      (case map_find cs p of
         None \<Rightarrow> S = {}
       | Some c \<Rightarrow>
           e_pseq c = p \<and> e_fcount c = N \<and> length (e_fragments c) = card S \<and>
           (\<forall>i<unat N. map_find (e_fragments c) (word_of_nat i) =
                           (if i \<in> S then Some (pay i) else None))))"

text \<open>The index a fragment carries, for either reassembler.\<close>

definition frag_index :: "PF_Header \<times> u8 list \<Rightarrow> nat" where
  "frag_index x = unat (findex (fst x))"

definition edi_index :: "u8 list \<Rightarrow> nat" where
  "edi_index d = unat (edi_findex d)"

text \<open>
  Test data: the header \<open>parse_pf_header\<close> reads off a \<open>pf_packet\<close>; a sequence of three
  fragments fed as 2, 0, 2, 1; the 257 fragments of one sequence, in order.
\<close>

definition plain_header :: "nat \<Rightarrow> nat \<Rightarrow> nat \<Rightarrow> nat \<Rightarrow> PF_Header" where
  "plain_header sq fi fcn pl =
     \<lparr>pseq = word_of_nat sq, findex = word_of_nat fi, fcount = word_of_nat fcn,
      fec = False, addr = False, plen = word_of_nat pl\<rparr>"

definition frag_payloads :: "nat \<Rightarrow> u8 list" where
  "frag_payloads i = (if i = 0 then [1, 2] else if i = 1 then [3] else [4, 5, 6])"

definition shuffled_packets :: "u8 list list" where
  "shuffled_packets =
     [pf_packet 7 2 3 [4, 5, 6], pf_packet 7 0 3 [1, 2],
      pf_packet 7 2 3 [4, 5, 6], pf_packet 7 1 3 [3]]"

definition shuffled_fragments :: "(PF_Header \<times> u8 list) list" where
  "shuffled_fragments =
     [(plain_header 7 2 3 3, pf_packet 7 2 3 [4, 5, 6]),
      (plain_header 7 0 3 2, pf_packet 7 0 3 [1, 2]),
      (plain_header 7 2 3 3, pf_packet 7 2 3 [4, 5, 6]),
      (plain_header 7 1 3 1, pf_packet 7 1 3 [3])]"

text \<open>
  The collectors left when the first \<open>n\<close> finished ones, in increasing Pseq, are released.
\<close>

fun release_finished :: "nat \<Rightarrow> (u16 \<times> PF_Collector) list \<Rightarrow> (u16 \<times> PF_Collector) list" where
  "release_finished 0 cs = cs"
| "release_finished (Suc n) [] = []"
| "release_finished (Suc n) ((k, c) # rest) =
     (if processed c then release_finished n rest else (k, c) # release_finished (Suc n) rest)"

text \<open>
  Sixteen finished sequences of one fragment each, Pseq 0 to 15, and the single
  fragment of the sequence 16.
\<close>

definition done_collector :: "u16 \<Rightarrow> u16 \<times> PF_Collector" where
  "done_collector sq =
     (sq, \<lparr>c_pseq = sq, c_fcount = 1, fragments_collected = 1, processed = True,
           fragments = [(0, [0x41])]\<rparr>)"

definition sixteen_done :: PF_Reassembler where
  "sixteen_done =
     \<lparr>collectors = map done_collector [0, 1, 2, 3, 4, 5, 6, 7, 8, 9, 10, 11, 12, 13, 14, 15],
      af_buffer = [0x41], af_allocated = True\<rparr>"

definition eight_left :: PF_Reassembler where
  "eight_left =
     \<lparr>collectors = map done_collector [9, 10, 11, 12, 13, 14, 15, 16],
      af_buffer = [0x41], af_allocated = True\<rparr>"

definition sixteen_packets :: "u8 list list" where
  "sixteen_packets =
     map (\<lambda>sq. pf_packet sq 0 1 [0x41]) [0, 1, 2, 3, 4, 5, 6, 7, 8, 9, 10, 11, 12, 13, 14, 15]"

definition seventeenth_packet :: "u8 list" where
  "seventeenth_packet = pf_packet 16 0 1 [0x41]"

text \<open>A sequence of one fragment with no payload.\<close>

definition no_payload :: "nat \<Rightarrow> u8 list" where
  "no_payload i = []"

definition empty_fragment :: "(PF_Header \<times> u8 list) list" where
  "empty_fragment = [(plain_header 7 0 1 0, pf_packet 7 0 1 [])]"

definition one_byte :: "nat \<Rightarrow> u8 list" where
  "one_byte i = [0x41]"

definition many_packets :: "u8 list list" where
  "many_packets = map (\<lambda>i. pf_packet 9 i 257 (one_byte i)) [0..<257]"

text \<open>The FL field of the frame an assembler call emitted, if it emitted one.\<close>

definition frame_fl :: "eti_result \<Rightarrow> nat option" where
  "frame_fl r = (case r of Frame f \<Rightarrow> Some (fc_fl f) | NoFrame \<Rightarrow> None | OutOfBounds \<Rightarrow> None)"

text \<open>
  Builder states after one tag packet with a \<open>*ptr\<close>, a \<open>deti\<close> in mode 1 with a FIC of 96
  bytes, and one \<open>est1\<close>: with 5 bytes of MST (\<open>odd\<close>) and with 8 (\<open>even\<close>), for either
  assembler.
\<close>

definition one_stream_builder :: "u8 list \<Rightarrow> EtiBuilder" where
  "one_stream_builder m =
     \<lparr>is_eti = True, fc_valid = True, err = 0xFF, mnsc = 0, rfu = 0xFFFF,
      fc = \<lparr>atstf = False, ficf = True, mid = 1, fp = 0, dflc = 0, tsta = 0xFFFFFF, nst = 1\<rparr>,
      fic = replicate 96 0,
      subchannels = \<lparr>scid = 1, sad = 0, tpl = 0, mst = m\<rparr>
                    # replicate 63 \<lparr>scid = 0, sad = 0, tpl = 0, mst = []\<rparr>\<rparr>"

definition one_stream_edi :: "u8 list \<Rightarrow> EDI_Builder" where
  "one_stream_edi m =
     \<lparr>b_is_eti = True, m_err = 0, m_mnsc = 0, fic_length = 96, b_fic = replicate 128 0,
      m_rfu = 0xFFFF,
      m_stc = \<lparr>stream_index = 0, stc_scid = 1, stc_sad = 0, stc_tpl = 0, stc_mst = m\<rparr>
              # replicate 63 \<lparr>stream_index = 0, stc_scid = 0, stc_sad = 0, stc_tpl = 0, stc_mst = []\<rparr>,
      m_fc_valid = True,
      m_fc = \<lparr>efc_atstf = False, efc_tsta = 0xFFFFFF, efc_ficf = True, efc_nst = 1,
              efc_dflc = 0, efc_mid = 1, efc_fp = 0\<rparr>\<rparr>"

text \<open>
  GSE packets by kind, as \<open>processGsePacket\<close> tells them apart: a packet that passes the
  length checks, a middle and a last fragment for the fragment ID \<open>i\<close>, and the payload
  bytes each of the two carries.
\<close>

definition gse_packet_ok :: "u8 list \<Rightarrow> bool" where
  "gse_packet_ok d = (2 \<le> length d \<and> d ! 0 AND 0xF0 \<noteq> 0 \<and> gse_length d + 2 \<le> length d)"

definition gse_middle_for :: "u8 \<Rightarrow> u8 list \<Rightarrow> bool" where
  "gse_middle_for i d =
     (gse_packet_ok d \<and> \<not> gse_start d \<and> \<not> gse_stop d \<and> 1 \<le> gse_length d \<and> d ! 2 = i)"

definition gse_last_for :: "u8 \<Rightarrow> u8 list \<Rightarrow> bool" where
  "gse_last_for i d =
     (gse_packet_ok d \<and> \<not> gse_start d \<and> gse_stop d \<and> 5 \<le> gse_length d \<and> d ! 2 = i)"

definition gse_middle_payload :: "u8 list \<Rightarrow> u8 list" where
  "gse_middle_payload d = take (gse_length d - 1) (drop 3 d)"

definition gse_last_payload :: "u8 list \<Rightarrow> u8 list" where
  "gse_last_payload d = take (gse_length d - 5) (drop 3 d)"

text \<open>
  The buffers are in order: an active one is as large as its recorded total length and
  its write position lies between the two header bytes and that length.
\<close>

definition gse_frag_ok :: "GseFragment \<Rightarrow> bool" where
  "gse_frag_ok f =
     (if active f
      then length (frag_data f) = total_length f \<and> 2 \<le> current_pos f \<and>
           current_pos f \<le> total_length f
      else True)"

text \<open>
  Test packets: a first fragment for ID 7 that announces 100 bytes and carries the
  protocol type and a 20-byte IPv4 header; a middle fragment with two bytes; a last
  fragment with no payload before its CRC.
\<close>

definition ip_header_20 :: "u8 list" where
  "ip_header_20 = [0x45, 0, 0, 100, 0, 0, 0, 0, 64, 17, 0, 0, 10, 0, 0, 1, 239, 199, 2, 1]"

definition gse_first_fragment :: "u8 list" where
  "gse_first_fragment = [0xA0, 25, 7, 0, 100, 0x08, 0x00] @ ip_header_20"

definition gse_middle_fragment :: "u8 list" where
  "gse_middle_fragment = [0x20, 3, 7, 0xAA, 0xBB]"

definition gse_last_fragment :: "u8 list" where
  "gse_last_fragment = [0x60, 5, 7, 0, 0, 0, 0]"

text \<open>A middle fragment for ID 7 whose 79 payload bytes do not fit behind the 22 stored ones.\<close>

definition gse_oversize_fragment :: "u8 list" where
  "gse_oversize_fragment = [0x20, 80, 7] @ replicate 79 0xAA"

definition gse_after_first :: GseParser where
  "gse_after_first = fst (gse_run gse_reset [gse_first_fragment])"

section \<open>Test frames for the FIC parser\<close>

text \<open>
  FIBs with their CRC: a sub-channel 5 and the service 0x1234 on it; the same service
  with no sub-channel declared; the service moved to sub-channel 6, which a second
  service 0x5678 shares; the label of the service; the label of the ensemble.
\<close>

definition fib_subch5 :: "u8 list" where
  "fib_subch5 =
     [0x04, 0x01, 0x14, 0x00, 0x14, 0x06, 0x02, 0x12, 0x34, 0x01, 0x3F, 0x16, 0xFF, 0xFF,
      0xFF, 0xFF, 0xFF, 0xFF, 0xFF, 0xFF, 0xFF, 0xFF, 0xFF, 0xFF, 0xFF, 0xFF, 0xFF, 0xFF,
      0xFF, 0xFF, 0xA9, 0xAF]"

definition fib_nosubch :: "u8 list" where
  "fib_nosubch =
     [0x06, 0x02, 0x12, 0x34, 0x01, 0x3F, 0x16, 0xFF, 0xFF, 0xFF, 0xFF, 0xFF, 0xFF, 0xFF,
      0xFF, 0xFF, 0xFF, 0xFF, 0xFF, 0xFF, 0xFF, 0xFF, 0xFF, 0xFF, 0xFF, 0xFF, 0xFF, 0xFF,
      0xFF, 0xFF, 0x07, 0xC1]"

definition fib_moved :: "u8 list" where
  "fib_moved =
     [0x04, 0x01, 0x18, 0x54, 0x14, 0x0B, 0x02, 0x12, 0x34, 0x01, 0x3F, 0x1A, 0x56, 0x78,
      0x01, 0x3F, 0x1A, 0xFF, 0xFF, 0xFF, 0xFF, 0xFF, 0xFF, 0xFF, 0xFF, 0xFF, 0xFF, 0xFF,
      0xFF, 0xFF, 0x3B, 0x94]"

definition fib_service_label :: "u8 list" where
  "fib_service_label =
     [0x35, 0x01, 0x12, 0x34, 0x52, 0x61, 0x64, 0x69, 0x6F, 0x20, 0x20, 0x20, 0x20, 0x20,
      0x20, 0x20, 0x20, 0x20, 0x20, 0x20, 0xFF, 0x00, 0xFF, 0xFF, 0xFF, 0xFF, 0xFF, 0xFF,
      0xFF, 0xFF, 0xDD, 0xFF]"

definition fib_ensemble_label :: "u8 list" where
  "fib_ensemble_label =
     [0x35, 0x00, 0x40, 0x01, 0x4D, 0x75, 0x78, 0x20, 0x20, 0x20, 0x20, 0x20, 0x20, 0x20,
      0x20, 0x20, 0x20, 0x20, 0x20, 0x20, 0xFF, 0x00, 0xFF, 0xFF, 0xFF, 0xFF, 0xFF, 0xFF,
      0xFF, 0xFF, 0x1D, 0xFF]"

text \<open>An ETI-NI frame of mode 1 with no stream: sync, FC, EOH and the three FIBs.\<close>

definition fic_frame_of :: "u8 list \<Rightarrow> u8 list \<Rightarrow> u8 list \<Rightarrow> u8 list" where
  "fic_frame_of fib0 fib1 fib2 =
     [0xFF, 0xF8, 0xC5, 0x49, 0x00, 0x80, 0x08, 0x19, 0x00, 0x00, 0x00, 0x00] @ fib0 @ fib1 @ fib2"

definition frame_subch5 :: "u8 list" where
  "frame_subch5 = fic_frame_of fib_subch5 fib_service_label fib_ensemble_label"

definition frame_nosubch :: "u8 list" where
  "frame_nosubch = fic_frame_of fib_nosubch fib_service_label fib_ensemble_label"

definition frame_moved :: "u8 list" where
  "frame_moved = fic_frame_of fib_moved fib_service_label fib_ensemble_label"

text \<open>
  The parser after \<open>k\<close> frames \<open>frame_subch5\<close>, \<open>k\<close> at least 1: the tables are those of
  the first frame, the two stability counts grow up to their thresholds.
\<close>

definition subchannel5 :: SubChannel where
  "subchannel5 = \<lparr>subchid = 5, startaddr = 0, subchsz = 0, sc_bitrate = 64, eepprot = 0,
                   protlvl = None, uep_indx = Some 20, sc_dabplus = 1\<rparr>"

definition service_1234 :: ServiceInfo where
  "service_1234 = \<lparr>si_sid = 0x1234, primary_subch = 5, secondary_subch = - 1\<rparr>"

definition label_radio :: "u8 list" where
  "label_radio = [0x52, 0x61, 0x64, 0x69, 0x6F]"

definition label_mux :: "u8 list" where
  "label_mux = [0x4D, 0x75, 0x78]"

definition ensemble_subch5 :: DABEnsemble where
  "ensemble_subch5 =
     \<lparr>eid = 0x4001, ens_label = label_mux,
      services = [\<lparr>sid = 0x1234, label = label_radio, bitrate = Some 64,
                   subchannel_id = Some 5, start_addr = Some 0, subchannel_size = Some 0,
                   dabplus = Some True, protection_level = None,
                   eep_protection = Some False\<rparr>]\<rparr>"

definition after_subch5 :: "nat \<Rightarrow> DABParser" where
  "after_subch5 k =
     \<lparr>dab_subchannels = [(5, subchannel5)], service_map = [(0x1234, service_1234)],
      service_labels = [(0x1234, label_radio)], ensemble_label = label_mux,
      ensemble_id = 0x4001, labelled = (11 \<le> k), basic_ready = (4 \<le> k),
      ensemble = ensemble_subch5, last_basic_service_count = 1,
      basic_stable_frames = min (k - 1) 3, last_service_count = 1,
      stable_frames = min (k - 1) 10, eti_call_count = int k\<rparr>"

text \<open>The same for \<open>frame_nosubch\<close>, which declares no sub-channel.\<close>

definition ensemble_nosubch :: DABEnsemble where
  "ensemble_nosubch =
     \<lparr>eid = 0x4001, ens_label = label_mux,
      services = [\<lparr>sid = 0x1234, label = label_radio, bitrate = None,
                   subchannel_id = None, start_addr = None, subchannel_size = None,
                   dabplus = None, protection_level = None, eep_protection = None\<rparr>]\<rparr>"

definition after_nosubch :: "nat \<Rightarrow> DABParser" where
  "after_nosubch k =
     \<lparr>dab_subchannels = [], service_map = [(0x1234, service_1234)],
      service_labels = [(0x1234, label_radio)], ensemble_label = label_mux,
      ensemble_id = 0x4001, labelled = (11 \<le> k), basic_ready = False,
      ensemble = ensemble_nosubch, last_basic_service_count = 0,
      basic_stable_frames = 0, last_service_count = 1,
      stable_frames = min (k - 1) 10, eti_call_count = int k\<rparr>"

section \<open>Vocabulary of the FIC properties\<close>

text \<open>
  A frame that a parser not yet complete hands to \<open>process_fic\<close>: it passes the checks
  of length, sync word and FIC flag at the head of \<open>process_eti_frame\<close>.
\<close>

definition fic_frame :: "u8 list \<Rightarrow> bool" where
  "fic_frame frame =
     (\<not> length frame < 8
      \<and> (frame_sync frame = ETI_NI_FSYNC0 \<or> frame_sync frame = ETI_NI_FSYNC1)
      \<and> fc_ficf frame \<noteq> 0
      \<and> frame_stc_end frame + frame_fic_len frame \<le> length frame)"

text \<open>The number of services known after a list of frames.\<close>

definition service_count :: "u8 list list \<Rightarrow> nat" where
  "service_count frames = length (service_map (dab_run frames))"

text \<open>
  \<open>stable_window frames n\<close>: the frames end in a window that holds \<open>n\<close> FIC frames at
  least and in which the call on every frame ended with the service count of the end.
\<close>

definition stable_window :: "u8 list list \<Rightarrow> nat \<Rightarrow> bool" where
  "stable_window frames n =
     list_ex (\<lambda>k. n \<le> length (filter fic_frame (drop k frames))
                  \<and> list_all (\<lambda>j. service_count (take j frames) = service_count frames)
                       [Suc k..<Suc (length frames)])
       [0..<Suc (length frames)]"

definition all_labelled :: "DABParser \<Rightarrow> bool" where
  "all_labelled st = list_all (\<lambda>e. map_find (service_labels st) (fst e) \<noteq> None) (service_map st)"

text \<open>
  What \<open>process_fic\<close> leaves alone: the two detectors and their flags, and a service
  map not empty.
\<close>

definition fic_keeps :: "DABParser \<Rightarrow> DABParser \<Rightarrow> bool" where
  "fic_keeps st st' =
     (last_service_count st' = last_service_count st \<and> stable_frames st' = stable_frames st
      \<and> labelled st' = labelled st \<and> basic_ready st' = basic_ready st
      \<and> eti_call_count st' = eti_call_count st
      \<and> (if service_map st = [] then True else service_map st' \<noteq> []))"

section \<open>Vocabulary of the manager properties\<close>

text \<open>The events that are calls of \<open>subchannel_change_callback_\<close>.\<close>

fun is_change :: "em_event \<Rightarrow> bool" where
  "is_change (SubchannelChanges key changes) = True"
| "is_change ev = False"

text \<open>
  What \<open>processUdp\<close> keeps of a stream: once the completion flag of a key is set, its
  parser is complete and the sub-channel map recorded is the one of the parser's
  ensemble; until then no sub-channel map is recorded.
\<close>

definition udp_tracked :: "EnsembleManager \<Rightarrow> StreamKey \<Rightarrow> bool" where
  "udp_tracked m key =
     (if complete_flags m key
      then (case parsers m key of
              None \<Rightarrow> False
            | Some p \<Rightarrow> labelled p
                \<and> last_subchannel_map m key = fill_subchannel_map [] (services (ensemble p)))
      else last_subchannel_map m key = [])"

text \<open>A UDP stream that delivers one ETI frame with each payload.\<close>

definition udp_frames :: "StreamKey \<Rightarrow> u8 list list \<Rightarrow> (StreamKey \<times> (u8 list \<times> u16) option) list" where
  "udp_frames key frames = map (\<lambda>frame. (key, Some (frame, 0))) frames"

definition test_key :: StreamKey where
  "test_key = (0xEF010203, 5000)"

text \<open>
  The tables a parser without tables holds after the first FIB of \<open>frame_moved\<close>:
  sub-channel 6, and the services 0x1234 and 0x5678 on it.
\<close>

definition subchannel6 :: SubChannel where
  "subchannel6 = \<lparr>subchid = 6, startaddr = 84, subchsz = 0, sc_bitrate = 64, eepprot = 0,
                   protlvl = None, uep_indx = Some 20, sc_dabplus = 1\<rparr>"

definition services_moved :: "(u32 \<times> ServiceInfo) list" where
  "services_moved =
     [(0x1234, \<lparr>si_sid = 0x1234, primary_subch = 6, secondary_subch = - 1\<rparr>),
      (0x5678, \<lparr>si_sid = 0x5678, primary_subch = 6, secondary_subch = - 1\<rparr>)]"

chapter \<open>Properties\<close>

section \<open>Runs\<close>

lemma run_steps_append:
  "run_steps f st (xs @ ys) =
     (fst (run_steps f (fst (run_steps f st xs)) ys),
      snd (run_steps f st xs) @ snd (run_steps f (fst (run_steps f st xs)) ys))"
  by (induction xs arbitrary: st) (simp_all add: split_beta Let_def)

lemma run_steps_length: "length (snd (run_steps f st xs)) = length xs"
  by (induction xs arbitrary: st) (simp_all add: split_beta Let_def)

text \<open>
  A round that collects the indices of a finite set \<open>F\<close>: while the set \<open>S\<close> of indices
  seen is short of \<open>F\<close> nothing is returned, the call that completes \<open>F\<close> returns
  \<open>res\<close>, and a new round starts. Then every output of a run is nothing or \<open>res\<close>,
  and a run whose indices cover \<open>F\<close> returns \<open>res\<close> at least once.
\<close>

lemma rounds_outputs:
  assumes step: "\<And>st S x. R S st \<Longrightarrow> ok x \<Longrightarrow>
      (idx x \<in> S \<longrightarrow> snd (f st x) = None \<and> R S (fst (f st x))) \<and>
      (idx x \<notin> S \<and> insert (idx x) S \<noteq> F \<longrightarrow>
         snd (f st x) = None \<and> R (insert (idx x) S) (fst (f st x))) \<and>
      (idx x \<notin> S \<and> insert (idx x) S = F \<longrightarrow>
         snd (f st x) = res \<and> R {} (fst (f st x)))"
    and "R S st" and "list_all ok xs"
  shows "list_all (\<lambda>out. out = None \<or> out = res) (snd (run_steps f st xs))"
  using assms(2,3)
proof (induction xs arbitrary: S st)
  case Nil
  then show ?case by simp
next
  case (Cons x xs)
  have okx: "ok x" and okxs: "list_all ok xs" using Cons.prems(2) by simp_all
  note s = step [OF Cons.prems(1) okx]
  obtain S' where R': "R S' (fst (f st x))" and o: "snd (f st x) = None \<or> snd (f st x) = res"
    using s by (cases "idx x \<in> S"; cases "insert (idx x) S = F") auto
  show ?case
    using Cons.IH [OF R' okxs] o by (simp add: split_beta Let_def)
qed

lemma rounds_complete:
  assumes step: "\<And>st S x. R S st \<Longrightarrow> ok x \<Longrightarrow>
      (idx x \<in> S \<longrightarrow> snd (f st x) = None \<and> R S (fst (f st x))) \<and>
      (idx x \<notin> S \<and> insert (idx x) S \<noteq> F \<longrightarrow>
         snd (f st x) = None \<and> R (insert (idx x) S) (fst (f st x))) \<and>
      (idx x \<notin> S \<and> insert (idx x) S = F \<longrightarrow>
         snd (f st x) = res \<and> R {} (fst (f st x)))"
    and proper: "\<And>S st. R S st \<Longrightarrow> S \<subset> F"
    and "R S st" and "list_all ok xs" and "F \<subseteq> S \<union> idx ` set xs"
  shows "res \<in> set (snd (run_steps f st xs))"
  using assms(3-5)
proof (induction xs arbitrary: S st)
  case Nil
  then show ?case using proper [OF Nil.prems(1)] by auto
next
  case (Cons x xs)
  have okx: "ok x" and okxs: "list_all ok xs" using Cons.prems(2) by simp_all
  note s = step [OF Cons.prems(1) okx]
  show ?case
  proof (cases "idx x \<in> S")
    case True
    then have R': "R S (fst (f st x))" using s by simp
    have "F \<subseteq> S \<union> idx ` set xs" using Cons.prems(3) True by auto
    then show ?thesis
      using Cons.IH [OF R' okxs] by (simp add: split_beta Let_def)
  next
    case False
    show ?thesis
    proof (cases "insert (idx x) S = F")
      case True
      then show ?thesis using s False by (simp add: split_beta Let_def)
    next
      case nf: False
      then have R': "R (insert (idx x) S) (fst (f st x))" using s False by simp
      have c: "F \<subseteq> insert (idx x) S \<union> idx ` set xs" using Cons.prems(3) by auto
      show ?thesis
        using Cons.IH [OF R' okxs c] by (simp add: split_beta Let_def)
    qed
  qed
qed

section \<open>UDP extractor\<close>

lemma extractUdp_short: "length d < 28 \<Longrightarrow> extractUdpFromIpv4 d = None"
  by (simp add: extractUdpFromIpv4_def)

lemma extractUdp_small_udp_len: "udp_len_field d < 8 \<Longrightarrow> extractUdpFromIpv4 d = None"
  by (simp add: extractUdpFromIpv4_def Let_def)

lemma extractUdp_slice:
  assumes "extractUdpFromIpv4 d = Some r"
  shows "payload_ptr r = ip_hdr_bytes d + 8 \<and>
         payload_ptr r + payload_len r = ip_hdr_bytes d + udp_len_field d"
  using assms
  by (auto simp: extractUdpFromIpv4_def Let_def split: if_splits)

text \<open>
  C7. The claim says that the extractor gives no output for a datagram whose UDP length
  exceeds the bytes that remain after the IP header. The code has no such check:
  \<open>short_dgram\<close> is 28 bytes long, so 8 bytes remain after its 20-byte IP header, its UDP
  length field is 256, and \<open>extractUdpFromIpv4\<close> accepts it with a payload slice of 248
  bytes starting at the end of the buffer. \<open>EnsembleManager::processIpPacket\<close>, which
  parses the same headers, rejects it.
\<close>

theorem extractUdp_accepts_overlong_udp_len:
  "length short_dgram = 28 \<and>
   ip_hdr_bytes short_dgram = 20 \<and> udp_len_field short_dgram = 256 \<and>
   extractUdpFromIpv4 short_dgram =
     Some \<lparr>dst_ip = 0xEFC70201, dst_port = 1234, payload_ptr = 28, payload_len = 248\<rparr> \<and>
   processIpPacket_extract short_dgram = None"
  by (simp add: extractUdpFromIpv4_def processIpPacket_extract_def short_dgram_def
      ip_hdr_bytes_def udp_len_field_def be16_def be32w_def Let_def)

section \<open>ETI-NA stage 1: padding detection and stripping\<close>

lemma count_leading_ff_nonneg: "0 \<le> count_leading_ff p"
  by (induction p) auto

lemma count_leading_ff_le_length: "count_leading_ff p \<le> int (length p)"
  by (induction p) auto

lemma count_leading_ff_replicate: "count_leading_ff (replicate n 0xFF) = int n"
  by (induction n) auto

text \<open>While detecting: the state after a run of fewer than five payloads.\<close>

lemma strip_all_detecting:
  assumes "detected_offset st < 0" and "packet_count st + int (length ps) < 5"
  shows "strip_all st ps =
           (st\<lparr>min_ff_count := foldl min (min_ff_count st) (map count_leading_ff ps),
               packet_count := packet_count st + int (length ps)\<rparr>,
            replicate (length ps) None)"
  using assms
proof (induction ps arbitrary: st)
  case Nil
  then show ?case by simp
next
  case (Cons p ps)
  let ?s = "fst (etina_strip_padding st p)"
  have step: "etina_strip_padding st p =
      (st\<lparr>min_ff_count := min (min_ff_count st) (count_leading_ff p),
          packet_count := packet_count st + 1\<rparr>, None)"
    using Cons.prems
    by (auto simp: etina_strip_padding_def Let_def OFFSET_DETECTION_PACKET_COUNT_def min_def)
  have "strip_all ?s ps =
      (?s\<lparr>min_ff_count := foldl min (min_ff_count ?s) (map count_leading_ff ps),
          packet_count := packet_count ?s + int (length ps)\<rparr>,
       replicate (length ps) None)"
    using Cons.prems by (intro Cons.IH) (simp_all add: step)
  then show ?case
    by (simp add: step add.assoc)
qed

lemma foldl_min_Min:
  "foldl min (a::int) xs = Min (insert a (set xs))"
proof (induction xs arbitrary: a)
  case Nil
  then show ?case by simp
next
  case (Cons x xs)
  have "Min (insert (min a x) (set xs)) = Min (insert a (insert x (set xs)))"
  proof (cases "set xs = {}")
    case True
    then show ?thesis by (simp add: min.commute)
  next
    case False
    then show ?thesis by (simp add: min.assoc)
  qed
  with Cons show ?case by simp
qed

text \<open>Once detected: the state is left alone and \<open>detected_offset\<close> bytes go.\<close>

lemma strip_detected:
  assumes "0 \<le> detected_offset st"
  shows "etina_strip_padding st p =
           (st, if length p \<le> nat (detected_offset st) then None
                else Some (drop (nat (detected_offset st)) p))"
  using assms by (simp add: etina_strip_padding_def strip_at_def Let_def)

text \<open>The fifth payload ends detection.\<close>

lemma strip_fifth:
  assumes "detected_offset st < 0" and "packet_count st = 4"
  shows "etina_strip_padding st p =
           (st\<lparr>min_ff_count := min (min_ff_count st) (count_leading_ff p),
               packet_count := 5,
               detected_offset := min (min_ff_count st) (count_leading_ff p)\<rparr>,
            strip_at (min (min_ff_count st) (count_leading_ff p)) p)"
  using assms
  by (auto simp: etina_strip_padding_def Let_def OFFSET_DETECTION_PACKET_COUNT_def min_def)

lemma strip_all_append:
  "strip_all st (ps @ qs) =
     (let (st1, o1) = strip_all st ps; (st2, o2) = strip_all st1 qs in (st2, o1 @ o2))"
  by (induction ps arbitrary: st) (auto simp: Let_def split: prod.splits)

lemma strip_all_five:
  assumes "length ps = 5"
  shows "detected_offset (fst (strip_all etina_offset_init ps)) =
           min 255 (Min (count_leading_ff ` set ps)) \<and>
         take 4 (snd (strip_all etina_offset_init ps)) = replicate 4 None"
proof -
  obtain qs p where ps: "ps = qs @ [p]" and lq: "length qs = 4"
    using assms by (cases ps rule: rev_cases) auto
  let ?m = "foldl min 255 (map count_leading_ff qs)"
  have first: "strip_all etina_offset_init qs =
      (etina_offset_init\<lparr>min_ff_count := ?m, packet_count := 4\<rparr>, replicate 4 None)"
    using strip_all_detecting [of etina_offset_init qs] lq
    by (simp add: etina_offset_init_def)
  have last: "etina_strip_padding (etina_offset_init\<lparr>min_ff_count := ?m, packet_count := 4\<rparr>) p =
      (etina_offset_init\<lparr>min_ff_count := min ?m (count_leading_ff p), packet_count := 5,
         detected_offset := min ?m (count_leading_ff p)\<rparr>,
       strip_at (min ?m (count_leading_ff p)) p)"
    by (subst strip_fifth) (simp_all add: etina_offset_init_def)
  have "min ?m (count_leading_ff p) = foldl min 255 (map count_leading_ff ps)"
    by (simp add: ps)
  also have "\<dots> = Min (insert 255 (count_leading_ff ` set ps))"
    by (simp add: foldl_min_Min)
  also have "\<dots> = min 255 (Min (count_leading_ff ` set ps))"
    using assms by (subst Min_insert) auto
  finally have m: "min ?m (count_leading_ff p) = min 255 (Min (count_leading_ff ` set ps))" .
  show ?thesis
    using m by (simp add: ps strip_all_append first last)
qed

lemma strip_all_detected:
  assumes "0 \<le> detected_offset st"
  shows "strip_all st qs = (st, map (stripped (detected_offset st)) qs)"
  using assms
  by (induction qs) (simp_all add: strip_detected stripped_def le_nat_iff)

lemma strip_at_stripped: "0 \<le> off \<Longrightarrow> strip_at off p = stripped off p"
  by (auto simp: strip_at_def stripped_def Let_def)

text \<open>The whole run: five payloads of a TS packet each, then any payloads.\<close>

lemma strip_all_run:
  assumes "length ps = 5" and "list_all (\<lambda>p. length p \<le> TS_BODY_SIZE) ps"
  defines "off \<equiv> Min (count_leading_ff ` set ps)"
  shows "strip_all etina_offset_init (ps @ qs) =
           (\<lparr>packet_count = 5, min_ff_count = off, detected_offset = off\<rparr>,
            replicate 4 None @ map (stripped off) (drop 4 ps @ qs))"
    and "0 \<le> off"
proof -
  obtain ps4 p where ps: "ps = ps4 @ [p]" and lq: "length ps4 = 4"
    using assms(1) by (cases ps rule: rev_cases) auto
  let ?m = "foldl min 255 (map count_leading_ff ps4)"
  have ne: "ps \<noteq> []" using assms(1) by auto
  then show nonneg: "0 \<le> off"
    by (simp add: off_def count_leading_ff_nonneg)
  have "count_leading_ff q \<le> 184" if "q \<in> set ps" for q
    using count_leading_ff_le_length [of q] assms(2) that
    by (auto simp: list_all_iff TS_BODY_SIZE_def)
  moreover have "off \<le> count_leading_ff (hd ps)"
    unfolding off_def using ne by (intro Min_le) simp_all
  ultimately have "off \<le> 184"
    using ne hd_in_set [of ps] by fastforce
  have "min ?m (count_leading_ff p) = foldl min 255 (map count_leading_ff ps)"
    by (simp add: ps)
  also have "\<dots> = Min (insert 255 (count_leading_ff ` set ps))"
    by (simp add: foldl_min_Min)
  also have "\<dots> = min 255 off"
    unfolding off_def using ne by (subst Min_insert) auto
  also have "\<dots> = off"
    using \<open>off \<le> 184\<close> by simp
  finally have m: "min ?m (count_leading_ff p) = off" .
  have first: "strip_all etina_offset_init ps4 =
      (etina_offset_init\<lparr>min_ff_count := ?m, packet_count := 4\<rparr>, replicate 4 None)"
    using strip_all_detecting [of etina_offset_init ps4] lq
    by (simp add: etina_offset_init_def)
  have fifth: "etina_strip_padding (etina_offset_init\<lparr>min_ff_count := ?m, packet_count := 4\<rparr>) p =
      (\<lparr>packet_count = 5, min_ff_count = off, detected_offset = off\<rparr>, stripped off p)"
    using nonneg by (subst strip_fifth) (simp_all add: etina_offset_init_def m strip_at_stripped)
  have rest: "strip_all \<lparr>packet_count = 5, min_ff_count = off, detected_offset = off\<rparr> qs =
      (\<lparr>packet_count = 5, min_ff_count = off, detected_offset = off\<rparr>, map (stripped off) qs)"
    using nonneg strip_all_detected [of "\<lparr>packet_count = 5, min_ff_count = off, detected_offset = off\<rparr>" qs]
    by simp
  have "strip_all etina_offset_init (ps4 @ [p] @ qs) =
      (\<lparr>packet_count = 5, min_ff_count = off, detected_offset = off\<rparr>,
       replicate 4 None @ stripped off p # map (stripped off) qs)"
    by (simp add: strip_all_append [of _ ps4] first fifth rest)
  then show "strip_all etina_offset_init (ps @ qs) =
           (\<lparr>packet_count = 5, min_ff_count = off, detected_offset = off\<rparr>,
            replicate 4 None @ map (stripped off) (drop 4 ps @ qs))"
    using lq by (simp add: ps)
qed

lemma replicate_4: "replicate 4 x = [x, x, x, x]"
  by (simp add: numeral_eq_Suc)

lemma padded_payloads_facts:
  "length padded_payloads = 5" "list_all (\<lambda>p. length p \<le> TS_BODY_SIZE) padded_payloads"
  "Min (count_leading_ff ` set padded_payloads) = 2"
  "drop 4 padded_payloads = [[0xFF, 0xFF, 0xFF, 0x05, 0x06]]"
  by (simp_all add: padded_payloads_def TS_BODY_SIZE_def)

text \<open>
  C6, as stated, fails after detection: a payload that has no more bytes than the
  padding detected is not stripped but dropped. The five payloads below give a
  \<open>detected_offset\<close> of 2; of the two TS payloads that follow, the first comes back two
  bytes shorter and the second, a single byte, gives no output.
\<close>

theorem etina_short_payload_dropped:
  "list_all (\<lambda>p. 1 \<le> length p \<and> length p \<le> TS_BODY_SIZE) (padded_payloads @ later_payloads) \<and>
   detected_offset (fst (strip_all etina_offset_init (padded_payloads @ later_payloads))) = 2 \<and>
   snd (strip_all etina_offset_init (padded_payloads @ later_payloads)) =
     [None, None, None, None, Some [0xFF, 0x05, 0x06], Some [0x1B, 0x2C], None]"
proof -
  have "list_all (\<lambda>p. 1 \<le> length p \<and> length p \<le> TS_BODY_SIZE) (padded_payloads @ later_payloads)"
    by (simp add: padded_payloads_def later_payloads_def TS_BODY_SIZE_def)
  then show ?thesis
    using strip_all_run(1) [OF padded_payloads_facts(1,2), of later_payloads]
    by (simp add: padded_payloads_facts(3,4) later_payloads_def stripped_def replicate_4)
qed

text \<open>
  C6, amended. Stage 1 observes the first five payloads, each the payload of a TS packet
  (184 bytes at most), and records as \<open>detected_offset\<close> the minimum count of leading
  0xFF bytes across them. The first four calls give no output. The fifth call, which
  ends the detection, and every call after it give the payload without its first
  \<open>detected_offset\<close> bytes, so exactly that many bytes shorter, when the payload is
  longer than \<open>detected_offset\<close>, and no output when it is not.
\<close>

theorem etina_strip_padding_detect_then_strip:
  assumes "length ps = 5" and "list_all (\<lambda>p. length p \<le> TS_BODY_SIZE) ps"
  shows "let off = Min (count_leading_ff ` set ps)
         in 0 \<le> off \<and>
            detected_offset (fst (strip_all etina_offset_init (ps @ qs))) = off \<and>
            snd (strip_all etina_offset_init (ps @ qs)) =
              replicate 4 None @ map (stripped off) (drop 4 ps @ qs) \<and>
            (\<forall>p r. stripped off p = Some r \<longrightarrow>
               p = take (nat off) p @ r \<and> int (length r) = int (length p) - off) \<and>
            (\<forall>p. stripped off p = None \<longleftrightarrow> int (length p) \<le> off)"
proof -
  let ?off = "Min (count_leading_ff ` set ps)"
  note r = strip_all_run(1) [OF assms, of qs] strip_all_run(2) [OF assms]
  have "p = take (nat ?off) p @ r \<and> int (length r) = int (length p) - ?off"
    if "stripped ?off p = Some r" for p r
    using that r(2) by (auto simp: stripped_def split: if_splits)
  moreover have "stripped ?off p = None \<longleftrightarrow> int (length p) \<le> ?off" for p
    by (simp add: stripped_def)
  ultimately show ?thesis
    using r unfolding Let_def by simp
qed

theorem etina_strip_padding_detect_then_strip_witness:
  "length padded_payloads = 5 \<and>
   list_all (\<lambda>p. length p \<le> TS_BODY_SIZE) padded_payloads \<and>
   Min (count_leading_ff ` set padded_payloads) = 2 \<and>
   detected_offset (fst (strip_all etina_offset_init (padded_payloads @ later_payloads))) = 2 \<and>
   snd (strip_all etina_offset_init (padded_payloads @ later_payloads)) =
     replicate 4 None @ map (stripped 2) (drop 4 padded_payloads @ later_payloads) \<and>
   map (stripped 2) (drop 4 padded_payloads @ later_payloads) =
     [Some [0xFF, 0x05, 0x06], Some [0x1B, 0x2C], None]"
proof -
  note t = etina_strip_padding_detect_then_strip [OF padded_payloads_facts(1,2), of later_payloads]
  have "map (stripped 2) (drop 4 padded_payloads @ later_payloads) =
     [Some [0xFF, 0x05, 0x06], Some [0x1B, 0x2C], None]"
    by (simp add: padded_payloads_facts(4) later_payloads_def stripped_def)
  then show ?thesis
    using t padded_payloads_facts(1,2,3) unfolding Let_def by simp
qed

section \<open>Ordered maps\<close>

lemma map_find_put: "map_find (map_put k v m) k' = (if k' = k then Some v else map_find m k')"
  by (induction m) auto

lemma map_find_None_iff: "map_find m k = None \<longleftrightarrow> k \<notin> fst ` set m"
  by (induction m) force+

lemma map_find_Some_mem: "map_find m k = Some v \<Longrightarrow> (k, v) \<in> set m"
  by (induction m) (auto split: if_splits)

lemma keys_map_put: "fst ` set (map_put k v m) = insert k (fst ` set m)"
proof (induction m)
  case Nil
  then show ?case by simp
next
  case (Cons a m)
  obtain k' v' where a: "a = (k', v')" by (cases a)
  show ?case using Cons.IH by (auto simp: a)
qed

lemma length_map_put_new: "map_find m k = None \<Longrightarrow> length (map_put k v m) = Suc (length m)"
  by (induction m) (auto split: if_splits)

lemma map_sorted_Cons:
  "map_sorted ((k, v) # m) \<longleftrightarrow> (\<forall>x \<in> fst ` set m. k < x) \<and> map_sorted m"
  by (auto simp: map_sorted_def)

lemma map_sorted_put: "map_sorted m \<Longrightarrow> map_sorted (map_put k v m)"
proof (induction m)
  case Nil
  then show ?case by (simp add: map_sorted_def)
next
  case (Cons a m)
  obtain k' v' where a: "a = (k', v')" by (cases a)
  have tl: "map_sorted m" and hd: "\<forall>x \<in> fst ` set m. k' < x"
    using Cons.prems by (simp_all add: a map_sorted_Cons)
  show ?case
  proof (cases "k < k'")
    case True
    have "\<forall>x \<in> fst ` set ((k', v') # m). k < x"
      using True hd by auto
    then show ?thesis
      using True Cons.prems by (simp add: a map_sorted_Cons [of k v])
  next
    case False
    show ?thesis
    proof (cases "k = k'")
      case True
      then show ?thesis using hd tl by (simp add: a map_sorted_Cons)
    next
      case ne: False
      with False have lt: "k' < k" by simp
      have "map_sorted (map_put k v m)" using Cons.IH tl by simp
      moreover have "\<forall>x \<in> fst ` set (map_put k v m). k' < x"
        using hd lt by (simp add: keys_map_put)
      ultimately show ?thesis
        using False ne by (simp add: a map_sorted_Cons)
    qed
  qed
qed

lemma map_sorted_distinct: "map_sorted m \<Longrightarrow> distinct (map fst m)"
  by (simp add: map_sorted_def strict_sorted_iff)

lemma map_sorted_length_u16:
  fixes m :: "(u16 \<times> 'v) list"
  assumes "map_sorted m"
  shows "length m \<le> 65536"
proof -
  have "length m = card (fst ` set m)"
    using distinct_card [OF map_sorted_distinct [OF assms]] by simp
  also have "\<dots> \<le> card (UNIV :: u16 set)"
    by (rule card_mono) simp_all
  also have "\<dots> = 65536"
    by (simp add: card_word)
  finally show ?thesis .
qed

section \<open>PF reassembly: the collector map\<close>

lemma cleanup_walk_keys: "set (cleanup_walk sz cs) \<subseteq> set cs"
  by (induction sz cs rule: cleanup_walk.induct) auto

lemma cleanup_walk_sorted: "map_sorted cs \<Longrightarrow> map_sorted (cleanup_walk sz cs)"
proof (induction sz cs rule: cleanup_walk.induct)
  case (1 sz)
  then show ?case by simp
next
  case (2 sz k c rest)
  have tl: "map_sorted rest" and hd: "\<forall>x \<in> fst ` set rest. k < x"
    using "2.prems" by (simp_all add: map_sorted_Cons)
  have hd': "\<forall>x \<in> fst ` set (cleanup_walk sz rest). k < x"
    using hd cleanup_walk_keys [of sz rest] by auto
  show ?case
    using 2 tl hd' by (auto simp: map_sorted_Cons)
qed

lemma cleanup_sorted: "map_sorted cs \<Longrightarrow> map_sorted (cleanup_old_collectors cs)"
  by (simp add: cleanup_old_collectors_def cleanup_walk_sorted)

lemma cleanup_walk_keeps_unfinished:
  "filter (\<lambda>(k, c). \<not> processed c) (cleanup_walk sz cs) = filter (\<lambda>(k, c). \<not> processed c) cs"
  by (induction sz cs rule: cleanup_walk.induct) auto

lemma cleanup_keeps_unfinished:
  "filter (\<lambda>(k, c). \<not> processed c) (cleanup_old_collectors cs) =
   filter (\<lambda>(k, c). \<not> processed c) cs"
  by (simp add: cleanup_old_collectors_def cleanup_walk_keeps_unfinished)

lemma cleanup_walk_small: "sz \<le> 8 \<Longrightarrow> cleanup_walk sz cs = cs"
  by (cases cs) auto

lemma cleanup_walk_result:
  "sz \<ge> length cs \<Longrightarrow>
   length (cleanup_walk sz cs) + (sz - length cs) \<le> 8 \<or>
   list_all (\<lambda>(k, c). \<not> processed c) (cleanup_walk sz cs) \<or> sz \<le> 8"
proof (induction sz cs rule: cleanup_walk.induct)
  case (1 sz)
  then show ?case by simp
next
  case (2 sz k c rest)
  show ?case
  proof (cases "sz > 8")
    case False
    then show ?thesis by simp
  next
    case True
    show ?thesis
    proof (cases "processed c")
      case p: True
      have le: "length rest \<le> sz - 1" using "2.prems" by simp
      show ?thesis
      proof (cases "sz - 1 \<le> 8")
        case small: True
        then have "cleanup_walk (sz - 1) rest = rest" by (rule cleanup_walk_small)
        then show ?thesis using True p small "2.prems" by simp
      next
        case big: False
        then show ?thesis
          using "2.IH"(1) [OF True p le] True p "2.prems" by auto
      qed
    next
      case np: False
      have le: "length rest \<le> sz" using "2.prems" by simp
      show ?thesis
        using "2.IH"(2) [OF True np le] True np "2.prems" by auto
    qed
  qed
qed

lemma cleanup_result:
  "length (cleanup_old_collectors cs) \<le> 16 \<or>
   list_all (\<lambda>(k, c). \<not> processed c) (cleanup_old_collectors cs)"
  using cleanup_walk_result [of cs "length cs"]
  by (auto simp: cleanup_old_collectors_def)

lemma add_fragment_sorted:
  assumes "map_sorted (collectors st)"
  shows "map_sorted (collectors (fst (add_fragment hdr pkt st)))"
  using assms
  by (auto simp: add_fragment_def Let_def map_sorted_put cleanup_sorted split: prod.splits)

lemma pf_feed_sorted:
  "map_sorted (collectors st) \<Longrightarrow> map_sorted (collectors (fst (pf_feed st pkt)))"
  by (simp add: pf_feed_def add_fragment_sorted split: option.splits)

lemma pf_feed_all_sorted:
  "map_sorted (collectors st) \<Longrightarrow> map_sorted (collectors (fst (pf_feed_all st pkts)))"
  unfolding pf_feed_all_def
proof (induction pkts arbitrary: st)
  case Nil
  then show ?case by simp
next
  case (Cons pkt pkts)
  have "map_sorted (collectors (fst (run_steps pf_feed (fst (pf_feed st pkt)) pkts)))"
    using Cons.prems by (intro Cons.IH pf_feed_sorted)
  then show ?case by (simp add: split_beta Let_def)
qed

lemma add_fragment_Some_cleanup:
  assumes "add_fragment hdr pkt st = (st', Some af)"
  shows "\<exists>cs. collectors st' = cleanup_old_collectors cs"
  using assms
  by (auto simp: add_fragment_def Let_def split: if_splits prod.splits)

lemma add_fragment_returns:
  assumes "add_fragment hdr pkt st = (st', Some af)"
  shows "length (collectors st') \<le> 16 \<or> list_all (\<lambda>(k, c). \<not> processed c) (collectors st')"
proof -
  obtain cs where "collectors st' = cleanup_old_collectors cs"
    using add_fragment_Some_cleanup [OF assms] by blast
  then show ?thesis
    using cleanup_result [of cs] by simp
qed

section \<open>PF packets on the wire\<close>

lemma u8_of_nat: "unat (word_of_nat n :: u8) = n mod 256"
  by (simp add: unat_of_nat)

lemma split16: "(n::nat) mod 65536 = n div 256 mod 256 * 256 + n mod 256"
  using mod_mult2_eq [of n 256 256] by simp

lemma be16_of_nat: "be16 (word_of_nat (n div 256)) (word_of_nat n) = n mod 65536"
  by (simp only: be16_def u8_of_nat split16)

lemma be16_split: "n < 65536 \<Longrightarrow> be16 (word_of_nat (n div 256)) (word_of_nat n) = n"
  by (simp only: be16_of_nat mod_less)

lemma be24_split:
  assumes "n < 16777216"
  shows "unat (word_of_nat (n div 65536) :: u8) * 65536 +
         be16 (word_of_nat (n div 256)) (word_of_nat n) = n"
proof -
  have "n div 65536 < 256" using assms by simp
  then have a: "unat (word_of_nat (n div 65536) :: u8) = n div 65536"
    by (simp only: u8_of_nat mod_less)
  have "n div 65536 * 65536 + n mod 65536 = n"
    by (rule div_mult_mod_eq)
  then show ?thesis
    by (simp only: a be16_of_nat)
qed

lemma parse_pf_packet:
  assumes "sq < 65536" "fi < 16777216" "fcn < 16777216" "length payload < 16384"
  shows "parse_pf_header (pf_packet sq fi fcn payload) =
           Some \<lparr>pseq = word_of_nat sq, findex = word_of_nat fi, fcount = word_of_nat fcn,
                  fec = False, addr = False, plen = word_of_nat (length payload)\<rparr>"
proof -
  let ?p = "pf_packet sq fi fcn payload"
  have len: "length ?p = 14 + length payload"
    by (simp add: pf_packet_def)
  have b: "?p ! 0 = 0x50" "?p ! 1 = 0x46"
    "?p ! 2 = word_of_nat (sq div 256)" "?p ! 3 = word_of_nat sq"
    "?p ! 4 = word_of_nat (fi div 65536)" "?p ! 5 = word_of_nat (fi div 256)"
    "?p ! 6 = word_of_nat fi"
    "?p ! 7 = word_of_nat (fcn div 65536)" "?p ! 8 = word_of_nat (fcn div 256)"
    "?p ! 9 = word_of_nat fcn"
    "?p ! 10 = word_of_nat (length payload div 256)" "?p ! 11 = word_of_nat (length payload)"
    by (simp_all add: pf_packet_def)
  have l: "be16 (?p ! 10) (?p ! 11) = length payload"
    using assms by (simp only: b) (rule be16_split, simp)
  have s: "be16 (?p ! 2) (?p ! 3) = sq"
    using assms by (simp only: b be16_split)
  have f: "unat (?p ! 4) * 65536 + be16 (?p ! 5) (?p ! 6) = fi"
    using assms by (simp only: b be24_split)
  have c: "unat (?p ! 7) * 65536 + be16 (?p ! 8) (?p ! 9) = fcn"
    using assms by (simp only: b be24_split)
  have m: "length payload mod 16384 = length payload"
    "length payload div 32768 = 0" "length payload div 16384 = 0"
    using assms by simp_all
  show ?thesis
    unfolding parse_pf_header_def Let_def l s f c b(1,2)
    by (simp add: len m)
qed

lemma pf_payload_packet:
  assumes "length payload < 65536"
  shows "pf_payload \<lparr>pseq = s, findex = f, fcount = c, fec = False, addr = False,
                     plen = word_of_nat (length payload)\<rparr> (pf_packet sq fi fcn payload) = payload"
proof -
  have "unat (word_of_nat (length payload) :: u16) = length payload"
    using assms by (simp add: unat_of_nat)
  then show ?thesis
    by (simp add: pf_payload_def pf_hdr_size_def pf_packet_def)
qed

section \<open>PF reassembly: one round\<close>

lemma concat_fragments_all:
  assumes "\<forall>j. i \<le> j \<and> j < n \<longrightarrow> map_find fr (word_of_nat j) = Some (pay j)"
  shows "concat_fragments fr i n buf = (buf @ concat (map pay [i..<n]), True)"
  using assms
proof (induction fr i n buf rule: concat_fragments.induct)
  case (1 fr i n buf)
  show ?case
  proof (cases "i < n")
    case False
    then show ?thesis by (simp add: concat_fragments.simps)
  next
    case True
    have here: "map_find fr (word_of_nat i) = Some (pay i)"
      using "1.prems" True by simp
    have "concat_fragments fr (i + 1) n (buf @ pay i) =
          ((buf @ pay i) @ concat (map pay [i + 1..<n]), True)"
      using "1.prems" by (intro "1.IH" [OF True here]) simp
    then show ?thesis
      using True here by (subst concat_fragments.simps) (simp add: upt_conv_Cons)
  qed
qed

lemma map_find_distinct:
  "distinct (map fst m) \<Longrightarrow> (k, v) \<in> set m \<Longrightarrow> map_find m k = Some v"
  by (induction m) force+

lemma cleanup_find:
  assumes "map_sorted cs"
  shows "map_find (cleanup_old_collectors cs) k = None \<or>
         map_find (cleanup_old_collectors cs) k = map_find cs k"
proof (cases "map_find (cleanup_old_collectors cs) k")
  case None
  then show ?thesis by simp
next
  case (Some v)
  then have "(k, v) \<in> set (cleanup_old_collectors cs)"
    by (rule map_find_Some_mem)
  then have "(k, v) \<in> set cs"
    using cleanup_walk_keys [of "length cs" cs]
    by (auto simp: cleanup_old_collectors_def split: if_splits)
  then have "map_find cs k = Some v"
    using map_sorted_distinct [OF assms] by (rule map_find_distinct [rotated])
  then show ?thesis using Some by simp
qed

lemma u32_of_nat_inj:
  assumes "i < 2 ^ 32" "j < 2 ^ 32"
  shows "(word_of_nat i :: u32) = word_of_nat j \<longleftrightarrow> i = j"
proof
  assume "(word_of_nat i :: u32) = word_of_nat j"
  then have "unat (word_of_nat i :: u32) = unat (word_of_nat j :: u32)" by simp
  then show "i = j" using assms by (simp add: unat_of_nat)
qed simp

lemma add_fragment_step:
  assumes R: "pf_round p N pay S st" and ok: "pf_frag_ok p N pay (h, pkt)"
  shows "(unat (findex h) \<in> S \<longrightarrow>
            snd (add_fragment h pkt st) = None \<and>
            pf_round p N pay S (fst (add_fragment h pkt st))) \<and>
         (unat (findex h) \<notin> S \<and> insert (unat (findex h)) S \<noteq> {0..<unat N} \<longrightarrow>
            snd (add_fragment h pkt st) = None \<and>
            pf_round p N pay (insert (unat (findex h)) S) (fst (add_fragment h pkt st))) \<and>
         (unat (findex h) \<notin> S \<and> insert (unat (findex h)) S = {0..<unat N} \<longrightarrow>
            snd (add_fragment h pkt st) =
              (if af_allocated st \<or> concat (map pay [0..<unat N]) \<noteq> []
               then Some (concat (map pay [0..<unat N])) else None) \<and>
            pf_round p N pay {} (fst (add_fragment h pkt st)) \<and>
            af_allocated (fst (add_fragment h pkt st)) =
              (af_allocated st \<or> concat (map pay [0..<unat N]) \<noteq> [])) \<and>
         (insert (unat (findex h)) S \<noteq> {0..<unat N} \<or> unat (findex h) \<in> S \<longrightarrow>
            af_allocated (fst (add_fragment h pkt st)) = af_allocated st)"
proof -
  let ?n = "unat N" and ?i = "unat (findex h)"
  have h: "pseq h = p" "fcount h = N" "findex h < N"
    "\<not> length pkt < pf_hdr_size h + unat (plen h)" "pf_payload h pkt = pay ?i"
    using ok by (simp_all add: pf_frag_ok_def)
  have i: "?i < ?n" using h(3) by (simp add: word_less_nat_alt)
  have n32: "?n < 2 ^ 32" using unsigned_less [of N] by simp
  have N0: "N \<noteq> 0" using i by auto
  have sorted: "map_sorted (collectors st)" and sub: "S \<subseteq> {0..<?n}" and ne: "S \<noteq> {0..<?n}"
    using R by (simp_all add: pf_round_def)
  have fin: "finite S" using sub by (rule finite_subset) simp
  have cardS: "card S < ?n"
    using psubset_card_mono [of "{0..<?n}" S] sub ne by auto
  let ?c1 = "pf_get_collector h st"
  have c1: "c_fcount ?c1 = N" "\<not> processed ?c1" "unat (fragments_collected ?c1) = card S"
    "\<forall>j<?n. map_find (fragments ?c1) (word_of_nat j) = (if j \<in> S then Some (pay j) else None)"
    using R h(1,2)
    by (auto simp: pf_round_def pf_get_collector_def PF_Collector_new_def Let_def
        split: option.splits if_splits)
  have look: "map_find (fragments ?c1) (findex h) = (if ?i \<in> S then Some (pay ?i) else None)"
    using c1(4) [rule_format, OF i] by simp
  have notge: "\<not> c_fcount ?c1 \<le> findex h"
    using h(3) c1(1) by simp
  show ?thesis
  proof (cases "?i \<in> S")
    case True
    have eq: "add_fragment h pkt st = (st\<lparr>collectors := map_put p ?c1 (collectors st)\<rparr>, None)"
      unfolding add_fragment_def Let_def
      using True look notge h(1,4) by simp
    have "pf_round p N pay S (st\<lparr>collectors := map_put p ?c1 (collectors st)\<rparr>)"
      using sorted sub ne c1 N0
      by (simp add: pf_round_def map_sorted_put map_find_put)
    then show ?thesis using True eq by simp
  next
    case False
    let ?c2 = "?c1\<lparr>fragments := map_put (findex h) (pf_payload h pkt) (fragments ?c1),
        fragments_collected := fragments_collected ?c1 + 1\<rparr>"
    have cnt: "unat (fragments_collected ?c1 + 1) = card S + 1"
    proof -
      have "unat (fragments_collected ?c1) + unat (1 :: u32) < 2 ^ LENGTH(32)"
        using c1(3) cardS n32 by simp
      then have "unat (fragments_collected ?c1 + 1) = unat (fragments_collected ?c1) + unat (1 :: u32)"
        by (simp only: unat_add_lem)
      then show ?thesis using c1(3) by simp
    qed
    have cardI: "card (insert ?i S) = card S + 1"
      using False fin by simp
    have subI: "insert ?i S \<subseteq> {0..<?n}" using sub i by simp
    have lt_iff: "fragments_collected ?c2 < c_fcount ?c2 \<longleftrightarrow> insert ?i S \<noteq> {0..<?n}"
    proof -
      have "fragments_collected ?c2 < c_fcount ?c2 \<longleftrightarrow> card (insert ?i S) < ?n"
        using cnt cardI c1(1) by (simp add: word_less_nat_alt)
      also have "\<dots> \<longleftrightarrow> insert ?i S \<noteq> {0..<?n}"
      proof
        assume "card (insert ?i S) < ?n"
        then show "insert ?i S \<noteq> {0..<?n}" by auto
      next
        assume "insert ?i S \<noteq> {0..<?n}"
        then have "insert ?i S \<subset> {0..<?n}" using subI by auto
        then have "card (insert ?i S) < card {0..<?n}"
          by (intro psubset_card_mono) simp_all
        then show "card (insert ?i S) < ?n" by simp
      qed
      finally show ?thesis .
    qed
    have c2: "c_fcount ?c2 = N" "\<not> processed ?c2"
      "unat (fragments_collected ?c2) = card (insert ?i S)"
      "\<forall>j<?n. map_find (fragments ?c2) (word_of_nat j) =
                (if j \<in> insert ?i S then Some (pay j) else None)"
    proof -
      show "c_fcount ?c2 = N" "\<not> processed ?c2" using c1 by simp_all
      show "unat (fragments_collected ?c2) = card (insert ?i S)"
        using cnt cardI by simp
      show "\<forall>j<?n. map_find (fragments ?c2) (word_of_nat j) =
                (if j \<in> insert ?i S then Some (pay j) else None)"
      proof (intro allI impI)
        fix j assume j: "j < ?n"
        have "(word_of_nat j :: u32) = findex h \<longleftrightarrow> j = ?i"
          using u32_of_nat_inj [of j ?i] j i n32 by simp
        then show "map_find (fragments ?c2) (word_of_nat j) =
                (if j \<in> insert ?i S then Some (pay j) else None)"
          using c1(4) j h(5) by (auto simp: map_find_put)
      qed
    qed
    show ?thesis
    proof (cases "insert ?i S = {0..<?n}")
      case nf: False
      have eq: "add_fragment h pkt st = (st\<lparr>collectors := map_put p ?c2 (collectors st)\<rparr>, None)"
        unfolding add_fragment_def Let_def
        using False look notge h(1,4) nf lt_iff by simp
      have "pf_round p N pay (insert ?i S) (st\<lparr>collectors := map_put p ?c2 (collectors st)\<rparr>)"
        using sorted subI nf c2 N0
        by (simp add: pf_round_def map_sorted_put map_find_put)
      then show ?thesis using False nf eq by simp
    next
      case full: True
      let ?c3 = "?c2\<lparr>processed := True\<rparr>"
      have all: "\<forall>j. 0 \<le> j \<and> j < ?n \<longrightarrow> map_find (fragments ?c3) (word_of_nat j) = Some (pay j)"
        using c2(4) full by auto
      have cat: "concat_fragments (fragments ?c3) 0 (unat (c_fcount ?c3)) [] =
                   (concat (map pay [0..<?n]), True)"
        using concat_fragments_all [OF all, of "[]"] c2(1) by simp
      let ?cs = "cleanup_old_collectors (map_put p ?c3 (collectors st))"
      let ?a = "af_allocated st \<or> concat (map pay [0..<?n]) \<noteq> []"
      have eq: "add_fragment h pkt st =
          (\<lparr>collectors = ?cs, af_buffer = concat (map pay [0..<?n]), af_allocated = ?a\<rparr>,
           if ?a then Some (concat (map pay [0..<?n])) else None)"
        unfolding add_fragment_def Let_def
        using False look notge h(1,4) full lt_iff cat by simp
      have s3: "map_sorted (map_put p ?c3 (collectors st))"
        using sorted by (rule map_sorted_put)
      have "map_find ?cs p = None \<or> map_find ?cs p = Some ?c3"
        using cleanup_find [OF s3, of p] by (simp add: map_find_put)
      moreover have "processed ?c3" by simp
      moreover have "{} \<noteq> {0..<?n}" using i by auto
      ultimately have "pf_round p N pay {}
          \<lparr>collectors = ?cs, af_buffer = concat (map pay [0..<?n]), af_allocated = ?a\<rparr>"
        using cleanup_sorted [OF s3] by (auto simp: pf_round_def)
      then show ?thesis using False full eq by simp
    qed
  qed
qed

section \<open>PF reassembly in EdiParser: one round\<close>

lemma map_find_erase: "map_find (map_erase k m) k' = (if k' = k then None else map_find m k')"
  by (induction m) auto

lemma edi_concat_all:
  assumes "\<forall>j. i \<le> j \<and> j < n \<longrightarrow> map_find fr (word_of_nat j) = Some (pay j)"
  shows "edi_concat fr i n af = af @ concat (map pay [i..<n])"
  using assms
proof (induction fr i n af rule: edi_concat.induct)
  case (1 fr i n af)
  show ?case
  proof (cases "i < n")
    case False
    then show ?thesis by (simp add: edi_concat.simps)
  next
    case True
    have here: "map_find fr (word_of_nat i) = Some (pay i)"
      using "1.prems" True by simp
    have "edi_concat fr (i + 1) n (af @ pay i) = (af @ pay i) @ concat (map pay [i + 1..<n])"
      using "1.prems" by (intro "1.IH"(2) [OF True here]) simp
    then show ?thesis
      using True here by (subst edi_concat.simps) (simp add: upt_conv_Cons)
  qed
qed

lemma edi_feed_step:
  assumes R: "edi_round p N pay S cs" and ok: "edi_frag_ok p N pay d" and N: "N \<le> 256"
  shows "(unat (edi_findex d) \<in> S \<longrightarrow>
            snd (edi_feed cs d) = None \<and> edi_round p N pay S (fst (edi_feed cs d))) \<and>
         (unat (edi_findex d) \<notin> S \<and> insert (unat (edi_findex d)) S \<noteq> {0..<unat N} \<longrightarrow>
            snd (edi_feed cs d) = None \<and>
            edi_round p N pay (insert (unat (edi_findex d)) S) (fst (edi_feed cs d))) \<and>
         (unat (edi_findex d) \<notin> S \<and> insert (unat (edi_findex d)) S = {0..<unat N} \<longrightarrow>
            snd (edi_feed cs d) = Some (concat (map pay [0..<unat N])) \<and>
            edi_round p N pay {} (fst (edi_feed cs d)))"
proof -
  let ?n = "unat N" and ?i = "unat (edi_findex d)"
  have h: "\<not> length d < 14" "d ! 0 = 0x50" "d ! 1 = 0x46" "edi_pseq d = p" "edi_fcount d = N"
    "edi_findex d < N" "\<not> length d < edi_hdr_size d + edi_plen d" "edi_payload d = pay ?i"
    using ok by (simp_all add: edi_frag_ok_def)
  have i: "?i < ?n" using h(6) by (simp add: word_less_nat_alt)
  have n32: "?n < 2 ^ 32" using unsigned_less [of N] by simp
  have N0: "N \<noteq> 0" using i by auto
  have guard: "\<not> (edi_fcount d = 0 \<or> edi_fcount d > 256 \<or> edi_findex d \<ge> edi_fcount d \<or>
              length d < edi_hdr_size d + edi_plen d)"
    using h N0 N by auto
  have sub: "S \<subseteq> {0..<?n}" and ne: "S \<noteq> {0..<?n}"
    using R by (simp_all add: edi_round_def)
  have fin: "finite S" using sub by (rule finite_subset) simp
  have cardS: "card S < ?n"
    using psubset_card_mono [of "{0..<?n}" S] sub ne by auto
  let ?c = "edi_collector cs d"
  have cin: "?i \<in> S \<Longrightarrow> length (e_fragments ?c) = card S"
    "?i \<notin> S \<Longrightarrow> length (e_fragments ?c) = card S + 1"
    and c: "e_pseq ?c = p" "e_fcount ?c = N"
    "\<forall>j<?n. map_find (e_fragments ?c) (word_of_nat j) =
        (if j \<in> insert ?i S then Some (pay j) else None)"
  proof -
    define c0 where "c0 = (case map_find cs p of None \<Rightarrow> PfCollector_new | Some c \<Rightarrow> c)"
    define c1 where "c1 = (if e_pseq c0 \<noteq> p \<or> e_fcount c0 \<noteq> N
               then c0\<lparr>e_pseq := p, e_fcount := N, e_fragments := []\<rparr> else c0)"
    have c1: "e_pseq c1 = p" "e_fcount c1 = N" "length (e_fragments c1) = card S"
      "\<forall>j<?n. map_find (e_fragments c1) (word_of_nat j) = (if j \<in> S then Some (pay j) else None)"
      using R N0
      by (auto simp: c1_def c0_def edi_round_def PfCollector_new_def split: option.splits)
    have look: "map_find (e_fragments c1) (edi_findex d) = (if ?i \<in> S then Some (pay ?i) else None)"
      using c1(4) [rule_format, OF i] by simp
    have "?c = (if map_find (e_fragments c1) (edi_findex d) = None
         then c1\<lparr>e_fragments := map_put (edi_findex d) (edi_payload d) (e_fragments c1)\<rparr>
         else c1)"
      unfolding edi_collector_def Let_def h(4,5) c0_def c1_def by (rule refl)
    then have cdef: "?c = (if ?i \<in> S then c1
        else c1\<lparr>e_fragments := map_put (edi_findex d) (pay ?i) (e_fragments c1)\<rparr>)"
      unfolding look h(8) by (simp split: if_splits)
    show "?i \<in> S \<Longrightarrow> length (e_fragments ?c) = card S"
      unfolding cdef using c1(3) by simp
    show "?i \<notin> S \<Longrightarrow> length (e_fragments ?c) = card S + 1"
      unfolding cdef using c1(3) look by (simp add: length_map_put_new)
    show "e_pseq ?c = p" "e_fcount ?c = N"
      unfolding cdef using c1(1,2) by (simp_all split: if_splits)
    show "\<forall>j<?n. map_find (e_fragments ?c) (word_of_nat j) =
        (if j \<in> insert ?i S then Some (pay j) else None)"
    proof (intro allI impI)
      fix j assume j: "j < ?n"
      have "(word_of_nat j :: u32) = edi_findex d \<longleftrightarrow> j = ?i"
        using u32_of_nat_inj [of j ?i] j i n32 by simp
      then show "map_find (e_fragments ?c) (word_of_nat j) =
          (if j \<in> insert ?i S then Some (pay j) else None)"
        unfolding cdef using c1(4) j by (auto simp: map_find_put)
    qed
  qed
  have eq: "edi_feed cs d =
      (if length (e_fragments ?c) = ?n
       then (map_erase p cs, Some (edi_concat (e_fragments ?c) 0 ?n []))
       else (map_put p ?c cs, None))"
    unfolding edi_feed_def Let_def c(2)
    using h(1,2,3,4) guard by simp
  show ?thesis
  proof (cases "?i \<in> S")
    case True
    have ins: "insert ?i S = S" using True by auto
    have "length (e_fragments ?c) \<noteq> ?n" using cin(1) [OF True] cardS by simp
    then have eq': "edi_feed cs d = (map_put p ?c cs, None)"
      using eq by simp
    have "edi_round p N pay S (map_put p ?c cs)"
      using sub ne c cin(1) [OF True] by (simp add: edi_round_def map_find_put ins)
    then show ?thesis using True eq' by simp
  next
    case False
    have cardI: "card (insert ?i S) = card S + 1" using False fin by simp
    have subI: "insert ?i S \<subseteq> {0..<?n}" using sub i by simp
    have len2: "length (e_fragments ?c) = card (insert ?i S)"
      using cin(2) [OF False] cardI by simp
    have full_iff: "card (insert ?i S) = ?n \<longleftrightarrow> insert ?i S = {0..<?n}"
    proof
      assume "card (insert ?i S) = ?n"
      then show "insert ?i S = {0..<?n}"
        using subI by (intro card_subset_eq) simp_all
    next
      assume "insert ?i S = {0..<?n}"
      then show "card (insert ?i S) = ?n" by simp
    qed
    show ?thesis
    proof (cases "insert ?i S = {0..<?n}")
      case nf: False
      have eq': "edi_feed cs d = (map_put p ?c cs, None)"
        using eq len2 full_iff nf by simp
      have "edi_round p N pay (insert ?i S) (map_put p ?c cs)"
        using subI nf c len2 by (simp add: edi_round_def map_find_put)
      then show ?thesis using False nf eq' by simp
    next
      case full: True
      have all: "\<forall>j. 0 \<le> j \<and> j < ?n \<longrightarrow> map_find (e_fragments ?c) (word_of_nat j) = Some (pay j)"
        using c(3) full by auto
      have eq': "edi_feed cs d = (map_erase p cs, Some (concat (map pay [0..<?n])))"
        using eq len2 full_iff full edi_concat_all [OF all, of "[]"] by simp
      have "{} \<noteq> {0..<?n}" using i by auto
      then have "edi_round p N pay {} (map_erase p cs)"
        by (simp add: edi_round_def map_find_erase)
      then show ?thesis using False full eq' by simp
    qed
  qed
qed

section \<open>PF packets as EdiParser reads them\<close>

lemma u8_and_3F: "m < 64 \<Longrightarrow> (word_of_nat m :: u8) AND 0x3F = word_of_nat m"
proof -
  assume m: "m < 64"
  have k: "(0x3F :: u8) = mask 6" by (simp add: mask_eq_exp_minus_1)
  have "uint (word_of_nat m :: u8) < 2 ^ 6"
    using m by (simp add: uint_nat unat_of_nat)
  then have "(word_of_nat m :: u8) AND mask 6 = word_of_nat m"
    by (simp only: mask_eq_iff)
  then show ?thesis by (simp only: k)
qed

lemma u8_drop_bit_7: "m < 64 \<Longrightarrow> drop_bit 7 (word_of_nat m :: u8) = 0"
proof -
  assume m: "m < 64"
  have "unat (drop_bit 7 (word_of_nat m :: u8)) = drop_bit 7 (unat (word_of_nat m :: u8))"
    by (rule unat_drop_bit_eq)
  also have "\<dots> = m div 2 ^ 7" using m by (simp only: drop_bit_eq_div u8_of_nat) simp
  also have "\<dots> = 0" using m by simp
  finally show ?thesis by (simp only: unat_eq_zero)
qed

lemma u8_drop_bit_6: "m < 64 \<Longrightarrow> drop_bit 6 (word_of_nat m :: u8) = 0"
proof -
  assume m: "m < 64"
  have "unat (drop_bit 6 (word_of_nat m :: u8)) = drop_bit 6 (unat (word_of_nat m :: u8))"
    by (rule unat_drop_bit_eq)
  also have "\<dots> = m div 2 ^ 6" using m by (simp only: drop_bit_eq_div u8_of_nat) simp
  also have "\<dots> = 0" using m by simp
  finally show ?thesis by (simp only: unat_eq_zero)
qed

lemma edi_fields_packet:
  assumes "sq < 65536" "fi < 16777216" "fcn < 16777216" "length payload < 16384"
  shows "edi_pseq (pf_packet sq fi fcn payload) = word_of_nat sq"
    and "edi_findex (pf_packet sq fi fcn payload) = word_of_nat fi"
    and "edi_fcount (pf_packet sq fi fcn payload) = word_of_nat fcn"
    and "edi_plen (pf_packet sq fi fcn payload) = length payload"
    and "edi_hdr_size (pf_packet sq fi fcn payload) = 14"
    and "edi_payload (pf_packet sq fi fcn payload) = payload"
proof -
  let ?p = "pf_packet sq fi fcn payload"
  have b: "?p ! 2 = word_of_nat (sq div 256)" "?p ! 3 = word_of_nat sq"
    "?p ! 4 = word_of_nat (fi div 65536)" "?p ! 5 = word_of_nat (fi div 256)"
    "?p ! 6 = word_of_nat fi"
    "?p ! 7 = word_of_nat (fcn div 65536)" "?p ! 8 = word_of_nat (fcn div 256)"
    "?p ! 9 = word_of_nat fcn"
    "?p ! 10 = word_of_nat (length payload div 256)" "?p ! 11 = word_of_nat (length payload)"
    by (simp_all add: pf_packet_def)
  have hi: "length payload div 256 < 64" using assms(4) by simp
  show "edi_pseq ?p = word_of_nat sq"
    using assms(1) by (simp only: edi_pseq_def b be16_split)
  show "edi_findex ?p = word_of_nat fi"
    using assms(2) by (simp only: edi_findex_def b be24_split)
  show "edi_fcount ?p = word_of_nat fcn"
    using assms(3) by (simp only: edi_fcount_def b be24_split)
  show pl: "edi_plen ?p = length payload"
    using assms(4) by (simp only: edi_plen_def b u8_and_3F [OF hi]) (rule be16_split, simp)
  show hs: "edi_hdr_size ?p = 14"
    by (simp only: edi_hdr_size_def b u8_drop_bit_7 [OF hi] u8_drop_bit_6 [OF hi]) simp
  show "edi_payload ?p = payload"
    by (simp only: edi_payload_def pl hs) (simp add: pf_packet_def)
qed

lemma edi_feed_too_many:
  assumes "edi_fcount d > 256"
  shows "edi_feed cs d = (cs, None)"
  using assms by (simp add: edi_feed_def)

section \<open>PF reassembly: any order, duplicates and all\<close>

lemma pf_idle_round:
  assumes "0 < unat N" "map_sorted (collectors st)" "pf_idle p st"
  shows "pf_round p N pay {} st"
proof -
  have "{} \<noteq> {0..<unat N}" using assms(1) by auto
  then show ?thesis
    using assms(2,3) by (auto simp: pf_round_def pf_idle_def split: option.splits)
qed

lemma add_fragments_round:
  assumes "0 < unat N" "map_sorted (collectors st)" "pf_idle p st"
    and "list_all (pf_frag_ok p N pay) xs" and "{0..<unat N} \<subseteq> frag_index ` set xs"
  defines "res \<equiv> (if af_allocated st \<or> concat (map pay [0..<unat N]) \<noteq> []
                    then Some (concat (map pay [0..<unat N])) else None)"
  shows "list_all (\<lambda>out. out = None \<or> out = res) (snd (add_fragments st xs)) \<and>
         res \<in> set (snd (add_fragments st xs))"
proof -
  let ?f = "\<lambda>st (hdr, pkt). add_fragment hdr pkt st"
  let ?full = "concat (map pay [0..<unat N])"
  let ?R = "\<lambda>S s. pf_round p N pay S s \<and>
                   (af_allocated s \<or> ?full \<noteq> []) = (af_allocated st \<or> ?full \<noteq> [])"
  have step: "(frag_index x \<in> S \<longrightarrow> snd (?f s x) = None \<and> ?R S (fst (?f s x))) \<and>
      (frag_index x \<notin> S \<and> insert (frag_index x) S \<noteq> {0..<unat N} \<longrightarrow>
         snd (?f s x) = None \<and> ?R (insert (frag_index x) S) (fst (?f s x))) \<and>
      (frag_index x \<notin> S \<and> insert (frag_index x) S = {0..<unat N} \<longrightarrow>
         snd (?f s x) = res \<and> ?R {} (fst (?f s x)))"
    if "?R S s" "pf_frag_ok p N pay x" for s S x
  proof -
    obtain h pkt where x: "x = (h, pkt)" by (cases x)
    have r: "pf_round p N pay S s"
      and a: "(af_allocated s \<or> ?full \<noteq> []) = (af_allocated st \<or> ?full \<noteq> [])"
      using that(1) by simp_all
    note t = add_fragment_step [OF r that(2) [unfolded x]]
    show ?thesis
    proof (cases "unat (findex h) \<in> S")
      case True
      then show ?thesis using t a by (simp add: x frag_index_def)
    next
      case False
      show ?thesis
      proof (cases "insert (unat (findex h)) S = {0..<unat N}")
        case nf: False
        then show ?thesis using t a False by (simp add: x frag_index_def)
      next
        case full: True
        have "snd (add_fragment h pkt s) = res"
          using t a False full unfolding res_def by presburger
        moreover have "?R {} (fst (add_fragment h pkt s))"
          using t a False full by blast
        ultimately show ?thesis using False full by (simp add: x frag_index_def)
      qed
    qed
  qed
  have proper: "S \<subset> {0..<unat N}" if "?R S s" for S s
    using that by (auto simp: pf_round_def)
  have R0: "?R {} st" using pf_idle_round [OF assms(1-3)] by simp
  have "list_all (\<lambda>out. out = None \<or> out = res) (snd (run_steps ?f st xs))"
    using step R0 assms(4) by (rule rounds_outputs)
  moreover have "res \<in> set (snd (run_steps ?f st xs))"
  proof (rule rounds_complete [OF step proper R0 assms(4)])
    show "{0..<unat N} \<subseteq> {} \<union> frag_index ` set xs" using assms(5) by simp
  qed
  ultimately show ?thesis by (simp add: add_fragments_def)
qed

lemma edi_feed_all_round:
  assumes "0 < unat N" "unat N \<le> 256" "map_find cs p = None"
    and "list_all (edi_frag_ok p N pay) ds" and "{0..<unat N} \<subseteq> edi_index ` set ds"
  shows "list_all (\<lambda>out. out = None \<or> out = Some (concat (map pay [0..<unat N])))
           (snd (edi_feed_all cs ds)) \<and>
         Some (concat (map pay [0..<unat N])) \<in> set (snd (edi_feed_all cs ds))"
proof -
  let ?R = "\<lambda>S cs. edi_round p N pay S cs"
  let ?full = "concat (map pay [0..<unat N])"
  have N: "N \<le> 256" using assms(2) by (simp add: word_le_nat_alt)
  have step: "(edi_index d \<in> S \<longrightarrow> snd (edi_feed cs d) = None \<and> ?R S (fst (edi_feed cs d))) \<and>
      (edi_index d \<notin> S \<and> insert (edi_index d) S \<noteq> {0..<unat N} \<longrightarrow>
         snd (edi_feed cs d) = None \<and> ?R (insert (edi_index d) S) (fst (edi_feed cs d))) \<and>
      (edi_index d \<notin> S \<and> insert (edi_index d) S = {0..<unat N} \<longrightarrow>
         snd (edi_feed cs d) = Some ?full \<and> ?R {} (fst (edi_feed cs d)))"
    if "?R S cs" "edi_frag_ok p N pay d" for cs S d
    using edi_feed_step [OF that N] by (simp add: edi_index_def)
  have proper: "S \<subset> {0..<unat N}" if "?R S cs" for S cs
    using that by (auto simp: edi_round_def)
  have "{} \<noteq> {0..<unat N}" using assms(1) by auto
  then have R0: "?R {} cs" using assms(3) by (simp add: edi_round_def)
  have "list_all (\<lambda>out. out = None \<or> out = Some ?full) (snd (run_steps edi_feed cs ds))"
    using step R0 assms(4) by (rule rounds_outputs)
  moreover have "Some ?full \<in> set (snd (run_steps edi_feed cs ds))"
  proof (rule rounds_complete [OF step proper R0 assms(4)])
    show "{0..<unat N} \<subseteq> {} \<union> edi_index ` set ds" using assms(5) by simp
  qed
  ultimately show ?thesis by (simp add: edi_feed_all_def)
qed

section \<open>PF reassembly: how many collectors\<close>

lemma first_fragment_stored:
  assumes "sq < 65536"
    and "map_find (collectors st) (word_of_nat sq) = None"
  shows "\<exists>c. collectors (fst (pf_feed st (pf_packet sq 0 2 [0x41]))) =
               map_put (word_of_nat sq) c (collectors st)"
proof -
  let ?h = "\<lparr>pseq = word_of_nat sq, findex = word_of_nat 0, fcount = word_of_nat 2,
             fec = False, addr = False, plen = word_of_nat (length [0x41 :: u8])\<rparr>"
  have p: "parse_pf_header (pf_packet sq 0 2 [0x41]) = Some ?h"
    using assms(1) by (intro parse_pf_packet) simp_all
  have c: "pf_get_collector ?h st =
      PF_Collector_new\<lparr>c_pseq := word_of_nat sq, c_fcount := 2, fragments_collected := 0,
        processed := False, fragments := []\<rparr>"
    using assms(2) by (simp add: pf_get_collector_def PF_Collector_new_def)
  show ?thesis
    unfolding pf_feed_def p option.case add_fragment_def Let_def c
    by (simp add: pf_hdr_size_def pf_packet_def PF_Collector_new_def) blast
qed

lemma first_fragments_count:
  assumes "n \<le> 65536"
  shows "length (collectors (fst (pf_feed_all pf_reset (map (\<lambda>sq. pf_packet sq 0 2 [0x41]) [0..<n])))) = n \<and>
         fst ` set (collectors (fst (pf_feed_all pf_reset (map (\<lambda>sq. pf_packet sq 0 2 [0x41]) [0..<n])))) =
           word_of_nat ` {0..<n}"
  using assms
proof (induction n)
  case 0
  then show ?case by (simp add: pf_feed_all_def pf_reset_def)
next
  case (Suc n)
  let ?f = "\<lambda>sq. pf_packet sq 0 2 [0x41]"
  let ?st = "fst (pf_feed_all pf_reset (map ?f [0..<n]))"
  have IH: "length (collectors ?st) = n" "fst ` set (collectors ?st) = word_of_nat ` {0..<n}"
    using Suc by simp_all
  have n: "n < 65536" using Suc.prems by simp
  have new: "(word_of_nat n :: u16) \<notin> word_of_nat ` {0..<n}"
  proof
    assume "(word_of_nat n :: u16) \<in> word_of_nat ` {0..<n}"
    then obtain m where m: "m < n" "(word_of_nat n :: u16) = word_of_nat m" by auto
    then have "unat (word_of_nat n :: u16) = unat (word_of_nat m :: u16)" by simp
    then show False using m(1) n by (simp add: unat_of_nat)
  qed
  then have none: "map_find (collectors ?st) (word_of_nat n) = None"
    by (simp add: map_find_None_iff IH(2))
  obtain c where c: "collectors (fst (pf_feed ?st (?f n))) = map_put (word_of_nat n) c (collectors ?st)"
    using first_fragment_stored [OF n none] by blast
  have run: "fst (pf_feed_all pf_reset (map ?f [0..<Suc n])) = fst (pf_feed ?st (?f n))"
    by (simp add: pf_feed_all_def run_steps_append split_beta Let_def)
  have "{0..<Suc n} = insert n {0..<n}" by auto
  then show ?case
    unfolding run c
    using none IH by (simp add: length_map_put_new keys_map_put)
qed

lemma pf_reachable_sorted: "map_sorted (collectors (fst (pf_feed_all pf_reset pkts)))"
  by (rule pf_feed_all_sorted) (simp add: pf_reset_def map_sorted_def)

text \<open>
  C8, as stated, fails: the first fragments of 65 sequences that are never completed
  leave 65 collectors in the map.
\<close>

theorem pf_collectors_exceed_64:
  "length (collectors (fst (pf_feed_all pf_reset first_fragments))) = 65"
  unfolding first_fragments_def
  using first_fragments_count [of 65] by simp

lemma cleanup_walk_release: "cleanup_walk sz cs = release_finished (sz - 8) cs"
proof (induction sz cs rule: cleanup_walk.induct)
  case (1 sz)
  show ?case by (cases "sz - 8") simp_all
next
  case (2 sz k c rest)
  show ?case
  proof (cases "sz > 8")
    case False
    then show ?thesis by simp
  next
    case True
    then obtain m where m: "sz - 8 = Suc m" "sz - 1 - 8 = m"
      by (cases "sz - 8") auto
    show ?thesis
      using 2 True m by simp
  qed
qed

lemma length_release_finished:
  "length (release_finished n cs) =
     length cs - min n (length (filter (\<lambda>(k, c). processed c) cs))"
proof (induction n cs rule: release_finished.induct)
  case (3 n k c rest)
  have "min (Suc n) (length (filter (\<lambda>(k, c). processed c) rest)) \<le> length rest"
    by (rule min.coboundedI2) (rule length_filter_le)
  then show ?case using 3 by auto
qed simp_all

lemma cleanup_release:
  "cleanup_old_collectors cs =
     (if length cs > 16 then release_finished (length cs - 8) cs else cs)"
  by (simp add: cleanup_old_collectors_def cleanup_walk_release)

lemma length_cleanup:
  "length (cleanup_old_collectors cs) =
     (if length cs > 16
      then max 8 (length cs - length (filter (\<lambda>(k, c). processed c) cs)) else length cs)"
proof -
  have "length (filter (\<lambda>(k, c). processed c) cs) \<le> length cs"
    by (rule length_filter_le)
  then show ?thesis
    by (auto simp: cleanup_release length_release_finished)
qed

text \<open>
  What one call of \<open>add_fragment\<close> does to the map: nothing, or it stores the collector
  of its Pseq, and only with a collector marked finished, all of whose fragments were
  counted, does it go on to \<open>cleanup_old_collectors\<close>.
\<close>

lemma pf_get_collector_unfinished: "\<not> processed (pf_get_collector hdr st)"
  by (simp add: pf_get_collector_def Let_def PF_Collector_new_def split: option.splits)

lemma add_fragment_collectors:
  "\<exists>c. collectors (fst (add_fragment hdr pkt st)) = collectors st
       \<or> collectors (fst (add_fragment hdr pkt st)) = map_put (pseq hdr) c (collectors st)
         \<and> snd (add_fragment hdr pkt st) = None
       \<or> collectors (fst (add_fragment hdr pkt st)) =
           cleanup_old_collectors (map_put (pseq hdr) c (collectors st))
         \<and> processed c \<and> c_fcount c \<le> fragments_collected c"
proof (cases "length pkt < pf_hdr_size hdr + unat (plen hdr)")
  case True
  then have "add_fragment hdr pkt st = (st, None)"
    by (simp add: add_fragment_def)
  then show ?thesis by simp
next
  case long: False
  let ?c1 = "pf_get_collector hdr st"
  let ?c2 = "?c1\<lparr>fragments := map_put (findex hdr) (pf_payload hdr pkt) (fragments ?c1),
                 fragments_collected := fragments_collected ?c1 + 1\<rparr>"
  let ?c3 = "?c2\<lparr>processed := True\<rparr>"
  show ?thesis
  proof (cases "findex hdr \<ge> c_fcount ?c1 \<or> map_find (fragments ?c1) (findex hdr) \<noteq> None")
    case True
    then have "add_fragment hdr pkt st =
        (st\<lparr>collectors := map_put (pseq hdr) ?c1 (collectors st)\<rparr>, None)"
      using long by (auto simp: add_fragment_def Let_def)
    then show ?thesis by auto
  next
    case new: False
    show ?thesis
    proof (cases "fragments_collected ?c2 < c_fcount ?c2")
      case True
      then have "add_fragment hdr pkt st =
          (st\<lparr>collectors := map_put (pseq hdr) ?c2 (collectors st)\<rparr>, None)"
        using long new by (simp add: add_fragment_def Let_def)
      then show ?thesis by auto
    next
      case all: False
      obtain buf found where cf:
        "concat_fragments (fragments ?c3) 0 (unat (c_fcount ?c3)) [] = (buf, found)"
        by (cases "concat_fragments (fragments ?c3) 0 (unat (c_fcount ?c3)) []")
      show ?thesis
      proof (cases found)
        case False
        have "add_fragment hdr pkt st =
            (\<lparr>collectors = map_put (pseq hdr) ?c3 (collectors st), af_buffer = buf,
              af_allocated = (af_allocated st \<or> buf \<noteq> [])\<rparr>, None)"
          using long new all cf False by (simp add: add_fragment_def Let_def)
        then show ?thesis by auto
      next
        case True
        have "collectors (fst (add_fragment hdr pkt st)) =
            cleanup_old_collectors (map_put (pseq hdr) ?c3 (collectors st))"
          using long new all cf True by (simp add: add_fragment_def Let_def)
        moreover have "processed ?c3 \<and> c_fcount ?c3 \<le> fragments_collected ?c3"
          using all by simp
        ultimately show ?thesis by blast
      qed
    qed
  qed
qed

lemma add_fragment_Some_collectors:
  assumes "snd (add_fragment hdr pkt st) \<noteq> None"
  shows "\<exists>c. collectors (fst (add_fragment hdr pkt st)) =
               cleanup_old_collectors (map_put (pseq hdr) c (collectors st))
             \<and> processed c \<and> c_fcount c \<le> fragments_collected c"
  using assms
  by (auto simp: add_fragment_def Let_def split: prod.splits if_splits)

text \<open>
  C8, amended. The collectors are keyed by the 16-bit Pseq, so a reassembler fed any
  packets from its construction never holds more than 65536 of them. A call of
  \<open>add_fragment\<close> leaves the map alone, or stores the collector of its Pseq and returns
  nothing, or, only with a collector marked finished whose fragments are all counted,
  stores it and runs \<open>cleanup_old_collectors\<close>; a call that returns an AF packet does
  the last. \<open>cleanup_old_collectors\<close> leaves 16 collectors or fewer alone; from more
  than 16 it releases finished collectors in increasing Pseq until 8 collectors are
  left or no finished one is, and never an unfinished one: \<open>max 8 (n - finished)\<close>
  collectors remain, and they are at most 16 or none of them is finished.
\<close>

theorem pf_collectors_bound:
  "length (collectors (fst (pf_feed_all pf_reset pkts))) \<le> 65536 \<and>
   cleanup_old_collectors cs =
     (if length cs > 16 then release_finished (length cs - 8) cs else cs) \<and>
   length (cleanup_old_collectors cs) =
     (if length cs > 16
      then max 8 (length cs - length (filter (\<lambda>(k, c). processed c) cs)) else length cs) \<and>
   filter (\<lambda>(k, c). \<not> processed c) (cleanup_old_collectors cs) =
     filter (\<lambda>(k, c). \<not> processed c) cs \<and>
   (\<exists>c. collectors (fst (add_fragment hdr pkt st)) = collectors st
        \<or> collectors (fst (add_fragment hdr pkt st)) = map_put (pseq hdr) c (collectors st)
          \<and> snd (add_fragment hdr pkt st) = None
        \<or> collectors (fst (add_fragment hdr pkt st)) =
            cleanup_old_collectors (map_put (pseq hdr) c (collectors st))
          \<and> processed c \<and> c_fcount c \<le> fragments_collected c) \<and>
   (add_fragment hdr pkt st = (st', Some af) \<longrightarrow>
      (\<exists>c. collectors st' = cleanup_old_collectors (map_put (pseq hdr) c (collectors st))
           \<and> processed c \<and> c_fcount c \<le> fragments_collected c) \<and>
      (length (collectors st') \<le> 16 \<or>
       list_all (\<lambda>(k, c). \<not> processed c) (collectors st')))"
proof -
  have "\<exists>c. collectors st' = cleanup_old_collectors (map_put (pseq hdr) c (collectors st))
           \<and> processed c \<and> c_fcount c \<le> fragments_collected c"
    if "add_fragment hdr pkt st = (st', Some af)"
    using add_fragment_Some_collectors [of hdr pkt st] that by simp
  then show ?thesis
    using map_sorted_length_u16 [OF pf_reachable_sorted] cleanup_release length_cleanup
      cleanup_keeps_unfinished add_fragment_collectors add_fragment_returns
    by blast
qed

lemma run_steps_all_rejected:
  assumes "list_all (\<lambda>x. f st x = (st, None)) xs"
  shows "run_steps f st xs = (st, replicate (length xs) None)"
  using assms by (induction xs) simp_all

lemma many_packets_fields:
  assumes "i < 257"
  shows "edi_frag_ok 9 257 one_byte (pf_packet 9 i 257 (one_byte i))"
    and "edi_index (pf_packet 9 i 257 (one_byte i)) = i"
    and "edi_fcount (pf_packet 9 i 257 (one_byte i)) = 257"
proof -
  let ?p = "pf_packet 9 i 257 (one_byte i)"
  have a: "(9::nat) < 65536" "i < 16777216" "(257::nat) < 16777216" "length (one_byte i) < 16384"
    using assms by (simp_all add: one_byte_def)
  note f = edi_fields_packet [OF a]
  have u: "unat (word_of_nat i :: u32) = i"
    using assms by (simp add: unat_of_nat)
  have lt: "(word_of_nat i :: u32) < 257"
    using assms u by (simp add: word_less_nat_alt)
  have len: "length ?p = 14 + length (one_byte i)" and m: "?p ! 0 = 0x50" "?p ! 1 = 0x46"
    by (simp_all add: pf_packet_def)
  show "edi_frag_ok 9 257 one_byte ?p"
    unfolding edi_frag_ok_def f len m using u lt by (simp add: one_byte_def)
  show "edi_index ?p = i"
    unfolding edi_index_def f by (rule u)
  show "edi_fcount ?p = 257"
    unfolding f by simp
qed

text \<open>
  C2, as stated, fails for \<open>EdiParser::feed\<close>: it drops every fragment of a sequence of
  more than 256 fragments. Fed the 257 fragments of one sequence, each once and in
  order, it assembles nothing.
\<close>

theorem edi_feed_drops_long_sequences:
  "list_all (edi_frag_ok 9 257 one_byte) many_packets \<and>
   edi_index ` set many_packets = {0..<257} \<and>
   snd (edi_feed_all [] many_packets) = replicate 257 None"
proof -
  have ok: "list_all (edi_frag_ok 9 257 one_byte) many_packets"
    using many_packets_fields(1) by (simp add: many_packets_def list_all_iff)
  have "edi_index ` set many_packets = (\<lambda>i. i) ` {0..<257}"
    unfolding many_packets_def set_map image_image
    by (rule image_cong) (simp_all add: many_packets_fields(2))
  then have cover: "edi_index ` set many_packets = {0..<257}" by simp
  have "list_all (\<lambda>d. edi_feed [] d = ([], None)) many_packets"
    using many_packets_fields(3) by (simp add: many_packets_def list_all_iff edi_feed_too_many)
  then have "run_steps edi_feed [] many_packets = ([], replicate (length many_packets) None)"
    by (rule run_steps_all_rejected)
  then have "snd (edi_feed_all [] many_packets) = replicate 257 None"
    by (simp add: edi_feed_all_def many_packets_def)
  with ok cover show ?thesis by simp
qed

text \<open>
  C2, amended. Take a sequence \<open>p\<close> of \<open>N \<ge> 1\<close> fragments with payloads \<open>pay 0\<close>, ...,
  \<open>pay (N - 1)\<close>, and feed fragments of it in any order, with any repetitions, such that
  every index occurs. \<open>PF_Reassembler::add_fragment\<close>, started with the collector of
  \<open>p\<close> idle, returns nothing or the payloads concatenated in index order at every call;
  it returns that packet at least once, unless the packet is empty and the AF buffer has
  never held a byte: then every call returns the null pointer. \<open>EdiParser::feed\<close>,
  started with no collector for \<open>p\<close>, returns nothing or the concatenation at every
  call and the concatenation at least once, when \<open>N\<close> is at most 256.
\<close>

theorem pf_reassembly_any_order:
  assumes "0 < unat N"
  shows "(map_sorted (collectors st) \<and> pf_idle p st \<and>
          list_all (pf_frag_ok p N pay) xs \<and> {0..<unat N} \<subseteq> frag_index ` set xs \<longrightarrow>
            list_all (\<lambda>out. out = None \<or> out = Some (concat (map pay [0..<unat N])))
              (snd (add_fragments st xs)) \<and>
            (af_allocated st \<or> concat (map pay [0..<unat N]) \<noteq> [] \<longrightarrow>
               Some (concat (map pay [0..<unat N])) \<in> set (snd (add_fragments st xs))) \<and>
            (\<not> af_allocated st \<and> concat (map pay [0..<unat N]) = [] \<longrightarrow>
               list_all (\<lambda>out. out = None) (snd (add_fragments st xs)))) \<and>
         (unat N \<le> 256 \<and> map_find cs p = None \<and>
          list_all (edi_frag_ok p N pay) ds \<and> {0..<unat N} \<subseteq> edi_index ` set ds \<longrightarrow>
            list_all (\<lambda>out. out = None \<or> out = Some (concat (map pay [0..<unat N])))
              (snd (edi_feed_all cs ds)) \<and>
            Some (concat (map pay [0..<unat N])) \<in> set (snd (edi_feed_all cs ds)))"
proof (intro conjI impI)
  let ?full = "concat (map pay [0..<unat N])"
  let ?res = "if af_allocated st \<or> ?full \<noteq> [] then Some ?full else None"
  assume a: "map_sorted (collectors st) \<and> pf_idle p st \<and>
          list_all (pf_frag_ok p N pay) xs \<and> {0..<unat N} \<subseteq> frag_index ` set xs"
  then have a1: "map_sorted (collectors st)" and a2: "pf_idle p st"
    and a3: "list_all (pf_frag_ok p N pay) xs" and a4: "{0..<unat N} \<subseteq> frag_index ` set xs"
    by simp_all
  have r: "list_all (\<lambda>out. out = None \<or> out = ?res) (snd (add_fragments st xs)) \<and>
           ?res \<in> set (snd (add_fragments st xs))"
    by (rule add_fragments_round [OF assms a1 a2 a3 a4])
  show "list_all (\<lambda>out. out = None \<or> out = Some ?full) (snd (add_fragments st xs))"
    using r by (auto simp: list_all_iff split: if_splits)
  show "Some ?full \<in> set (snd (add_fragments st xs))" if "af_allocated st \<or> ?full \<noteq> []"
    using r that by auto
  show "list_all (\<lambda>out. out = None) (snd (add_fragments st xs))"
    if "\<not> af_allocated st \<and> ?full = []"
    using r that by (auto simp: list_all_iff)
next
  assume a: "unat N \<le> 256 \<and> map_find cs p = None \<and>
          list_all (edi_frag_ok p N pay) ds \<and> {0..<unat N} \<subseteq> edi_index ` set ds"
  then have a1: "unat N \<le> 256" and a2: "map_find cs p = None"
    and a3: "list_all (edi_frag_ok p N pay) ds" and a4: "{0..<unat N} \<subseteq> edi_index ` set ds"
    by simp_all
  have r: "list_all (\<lambda>out. out = None \<or> out = Some (concat (map pay [0..<unat N])))
              (snd (edi_feed_all cs ds)) \<and>
            Some (concat (map pay [0..<unat N])) \<in> set (snd (edi_feed_all cs ds))"
    by (rule edi_feed_all_round [OF assms a1 a2 a3 a4])
  show "list_all (\<lambda>out. out = None \<or> out = Some (concat (map pay [0..<unat N])))
              (snd (edi_feed_all cs ds))"
    and "Some (concat (map pay [0..<unat N])) \<in> set (snd (edi_feed_all cs ds))"
    using r by simp_all
qed

lemma shuffled_fragments_ok:
  "list_all (pf_frag_ok 7 3 frag_payloads) shuffled_fragments"
proof -
  have ok: "pf_frag_ok 7 3 frag_payloads (plain_header 7 fi 3 n, pf_packet 7 fi 3 pl)"
    if "fi < 3" "length pl = n" "n < 100" "frag_payloads fi = pl" for fi pl n
  proof -
    have u: "unat (word_of_nat fi :: u32) = fi" "unat (word_of_nat (length pl) :: u16) = length pl"
      using that by (simp_all add: unat_of_nat)
    have lt: "(word_of_nat fi :: u32) < 3"
      using that u by (simp add: word_less_nat_alt)
    have "pf_payload (plain_header 7 fi 3 (length pl)) (pf_packet 7 fi 3 pl) = pl"
      unfolding plain_header_def using that by (intro pf_payload_packet) simp
    then show ?thesis
      using u lt that(2,4)
      by (simp add: pf_frag_ok_def plain_header_def pf_hdr_size_def pf_packet_def)
  qed
  have "pf_frag_ok 7 3 frag_payloads (plain_header 7 2 3 3, pf_packet 7 2 3 [4, 5, 6])"
    by (rule ok) (simp_all add: frag_payloads_def)
  moreover have "pf_frag_ok 7 3 frag_payloads (plain_header 7 0 3 2, pf_packet 7 0 3 [1, 2])"
    by (rule ok) (simp_all add: frag_payloads_def)
  moreover have "pf_frag_ok 7 3 frag_payloads (plain_header 7 1 3 1, pf_packet 7 1 3 [3])"
    by (rule ok) (simp_all add: frag_payloads_def)
  ultimately show ?thesis
    by (simp add: shuffled_fragments_def)
qed

lemma shuffled_packets_ok:
  "list_all (edi_frag_ok 7 3 frag_payloads) shuffled_packets \<and>
   edi_index ` set shuffled_packets = {0, 1, 2}"
proof -
  have ok: "edi_frag_ok 7 3 frag_payloads (pf_packet 7 fi 3 pl) \<and> edi_index (pf_packet 7 fi 3 pl) = fi"
    if "fi < 3" "length pl < 100" "frag_payloads fi = pl" for fi pl
  proof -
    have a: "(7::nat) < 65536" "fi < 16777216" "(3::nat) < 16777216" "length pl < 16384"
      using that by simp_all
    note f = edi_fields_packet [OF a]
    have u: "unat (word_of_nat fi :: u32) = fi"
      using that by (simp add: unat_of_nat)
    have lt: "(word_of_nat fi :: u32) < 3"
      using that u by (simp add: word_less_nat_alt)
    have len: "length (pf_packet 7 fi 3 pl) = 14 + length pl"
      and m: "pf_packet 7 fi 3 pl ! 0 = 0x50" "pf_packet 7 fi 3 pl ! 1 = 0x46"
      by (simp_all add: pf_packet_def)
    show ?thesis
      unfolding edi_frag_ok_def edi_index_def f len m using u lt that(3) by simp
  qed
  have "edi_frag_ok 7 3 frag_payloads (pf_packet 7 2 3 [4, 5, 6]) \<and>
        edi_index (pf_packet 7 2 3 [4, 5, 6]) = 2"
    by (rule ok) (simp_all add: frag_payloads_def)
  moreover have "edi_frag_ok 7 3 frag_payloads (pf_packet 7 0 3 [1, 2]) \<and>
        edi_index (pf_packet 7 0 3 [1, 2]) = 0"
    by (rule ok) (simp_all add: frag_payloads_def)
  moreover have "edi_frag_ok 7 3 frag_payloads (pf_packet 7 1 3 [3]) \<and>
        edi_index (pf_packet 7 1 3 [3]) = 1"
    by (rule ok) (simp_all add: frag_payloads_def)
  ultimately show ?thesis
    by (auto simp add: shuffled_packets_def)
qed

lemma empty_fragment_ok:
  "list_all (pf_frag_ok 7 1 no_payload) empty_fragment"
  "frag_index ` set empty_fragment = {0}"
  by (simp_all add: empty_fragment_def pf_frag_ok_def plain_header_def pf_hdr_size_def
      pf_packet_def pf_payload_def no_payload_def frag_index_def)

theorem pf_reassembly_any_order_witness:
  "0 < unat (3 :: u32) \<and>
   map_sorted (collectors pf_reset) \<and> pf_idle 7 pf_reset \<and> \<not> af_allocated pf_reset \<and>
   list_all (pf_frag_ok 7 3 frag_payloads) shuffled_fragments \<and>
   frag_index ` set shuffled_fragments = {0, 1, 2} \<and>
   list_all (edi_frag_ok 7 3 frag_payloads) shuffled_packets \<and>
   edi_index ` set shuffled_packets = {0, 1, 2} \<and>
   Some [1, 2, 3, 4, 5, 6] \<in> set (snd (add_fragments pf_reset shuffled_fragments)) \<and>
   Some [1, 2, 3, 4, 5, 6] \<in> set (snd (edi_feed_all [] shuffled_packets)) \<and>
   list_all (pf_frag_ok 7 1 no_payload) empty_fragment \<and>
   frag_index ` set empty_fragment = {0} \<and>
   snd (add_fragments pf_reset empty_fragment) = [None]"
proof -
  have n: "0 < unat (3 :: u32)" "unat (3 :: u32) = 3" "0 < unat (1 :: u32)" by simp_all
  have r: "map_sorted (collectors pf_reset)" "pf_idle 7 pf_reset" "\<not> af_allocated pf_reset"
    by (simp_all add: pf_reset_def map_sorted_def pf_idle_def)
  have fi: "frag_index ` set shuffled_fragments = {0, 1, 2}"
    by (auto simp: shuffled_fragments_def frag_index_def plain_header_def)
  have up: "{0..<3::nat} = {0, 1, 2}" by auto
  have full: "concat (map frag_payloads [0..<3]) = [1, 2, 3, 4, 5, 6]"
    by (simp add: frag_payloads_def upt_rec)
  note t = pf_reassembly_any_order [OF n(1), of pf_reset 7 frag_payloads shuffled_fragments
      "[]" shuffled_packets]
  have first: "Some [1, 2, 3, 4, 5, 6] \<in> set (snd (add_fragments pf_reset shuffled_fragments)) \<and>
      Some [1, 2, 3, 4, 5, 6] \<in> set (snd (edi_feed_all [] shuffled_packets))"
    using t r shuffled_fragments_ok shuffled_packets_ok fi
    by (simp add: n(2) up full)
  note e = pf_reassembly_any_order [OF n(3), of pf_reset 7 no_payload empty_fragment]
  have "list_all (\<lambda>out. out = None) (snd (add_fragments pf_reset empty_fragment))"
    using e r empty_fragment_ok by (simp add: no_payload_def)
  moreover have "length (snd (add_fragments pf_reset empty_fragment)) = 1"
    unfolding add_fragments_def run_steps_length by (simp add: empty_fragment_def)
  ultimately have second: "snd (add_fragments pf_reset empty_fragment) = [None]"
    by (cases "snd (add_fragments pf_reset empty_fragment)") auto
  show ?thesis
    using first second r n(1) shuffled_fragments_ok shuffled_packets_ok fi empty_fragment_ok
    by simp
qed

text \<open>
  A run that shows each part of \<open>pf_collectors_bound\<close> at work: with sixteen finished
  collectors held, the fragment that completes a seventeenth sequence makes
  \<open>cleanup_old_collectors\<close> release the nine of lowest Pseq.
\<close>

lemma sixteen_reached: "fst (pf_feed_all pf_reset sixteen_packets) = sixteen_done"
  by (simp add: pf_feed_all_def sixteen_packets_def pf_feed_def parse_pf_header_def be16_def
      add_fragment_def pf_get_collector_def pf_packet_def pf_reset_def
      sixteen_done_def done_collector_def pf_hdr_size_def
      pf_payload_def PF_Collector_new_def Let_def concat_fragments.simps
      cleanup_old_collectors_def)

lemma seventeenth_packet_done:
  "add_fragment (plain_header 16 0 1 1) seventeenth_packet sixteen_done = (eight_left, Some [0x41])"
  by (simp add: add_fragment_def pf_get_collector_def plain_header_def seventeenth_packet_def
      pf_packet_def sixteen_done_def eight_left_def done_collector_def pf_hdr_size_def
      pf_payload_def PF_Collector_new_def Let_def concat_fragments.simps
      cleanup_old_collectors_def)

theorem pf_collectors_bound_witness:
  "length (collectors (fst (pf_feed_all pf_reset first_fragments))) \<le> 65536 \<and>
   fst (pf_feed_all pf_reset sixteen_packets) = sixteen_done \<and>
   add_fragment (plain_header 16 0 1 1) seventeenth_packet sixteen_done
     = (eight_left, Some [0x41]) \<and>
   length (collectors sixteen_done) = 16 \<and>
   length (collectors eight_left) = 8 \<and>
   (\<exists>c. collectors eight_left =
          cleanup_old_collectors (map_put 16 c (collectors sixteen_done)) \<and> processed c)"
proof -
  note t = pf_collectors_bound [of first_fragments "[]" "plain_header 16 0 1 1"
      seventeenth_packet sixteen_done eight_left "[0x41]"]
  have p: "pseq (plain_header 16 0 1 1) = 16"
    by (simp add: plain_header_def)
  have "\<exists>c. collectors eight_left =
          cleanup_old_collectors (map_put 16 c (collectors sixteen_done)) \<and> processed c"
    using t seventeenth_packet_done unfolding p by blast
  moreover have "length (collectors sixteen_done) = 16" "length (collectors eight_left) = 8"
    by (simp_all add: sixteen_done_def eight_left_def)
  ultimately show ?thesis
    using t seventeenth_packet_done sixteen_reached by blast
qed

section \<open>ETI-NI frame assembly: the frame length\<close>

lemma hi_lo_word: "push_bit 8 (ucast (hi8 v) :: u32) OR ucast (lo8 v) = ucast v"
  unfolding hi8_def lo8_def
  by (rule bit_word_eqI) (auto simp: bit_simps dest: bit_imp_le_length)

lemma be32w_low11: "take_bit 11 (be32w a b c d) = take_bit 11 (push_bit 8 (ucast c) OR ucast d)"
  by (simp add: be32w_def take_bit_push_bit)

lemma v_low11: "take_bit 11 (push_bit 13 x OR push_bit 11 y OR (fl :: u16)) = take_bit 11 fl"
  by (simp add: take_bit_push_bit)

lemma eti_fl_sum:
  "eti_fl n fic_len msts =
     word_of_nat (unat n + 1 + fic_len div 4 + sum_list (map (\<lambda>m. length m div 4) msts))"
proof -
  have "foldl (\<lambda>fl m. fl + word_of_nat (length m div 4)) (w :: u16) msts =
        w + word_of_nat (sum_list (map (\<lambda>m. length m div 4) msts))" for w
    by (induction msts arbitrary: w) (simp_all add: add.assoc)
  then show ?thesis by (simp add: eti_fl_def)
qed

lemma sum_div4_le: "sum_list (map (\<lambda>m. length m div 4) ms) * 4 \<le> length (concat ms)"
  by (induction ms) auto

lemma sum_div4_exact:
  "list_all (\<lambda>m. length m mod 4 = 0) ms \<Longrightarrow>
   sum_list (map (\<lambda>m. length m div 4) ms) * 4 = sum_list (map length ms)"
  by (induction ms) (auto simp: add_mult_distrib)

lemma edi_copy_mst_Some:
  "edi_copy_mst idx ms = Some r \<Longrightarrow> idx \<le> 6136 \<Longrightarrow>
   r = concat ms \<and> idx + length (concat ms) \<le> 6136"
proof (induction ms arbitrary: idx r)
  case Nil
  then show ?case by simp
next
  case (Cons m ms)
  from Cons.prems(1) have fit: "idx + length m \<le> 6136"
    by (simp split: if_splits)
  from Cons.prems(1) fit obtain rest where rest: "edi_copy_mst (idx + length m) ms = Some rest"
    and r: "r = m @ rest"
    by (auto split: if_splits option.splits)
  from Cons.IH [OF rest fit] r show ?case by (simp add: add.assoc)
qed

lemma unat_ucast_u16_u32: "unat (ucast (v :: u16) :: u32) = unat v"
proof -
  have "unat v < 2 ^ 32" using unsigned_less [of v, where 'a = nat] by simp
  then show ?thesis by (simp add: unsigned_ucast_eq take_bit_nat_eq_self)
qed

lemma fc_fl_of_bytes:
  assumes "frame ! 6 = hi8 (push_bit 13 x OR push_bit 11 y OR fl)"
    and "frame ! 7 = lo8 (push_bit 13 x OR push_bit 11 y OR fl)"
    and "unat fl < 2048"
  shows "fc_fl frame = unat fl"
proof -
  let ?v = "push_bit 13 x OR push_bit 11 y OR fl"
  have "fc_word frame AND 0x7FF = take_bit 11 (fc_word frame)"
    by (simp add: take_bit_eq_mask mask_eq_exp_minus_1)
  also have "\<dots> = take_bit 11 (push_bit 8 (ucast (hi8 ?v)) OR ucast (lo8 ?v))"
    unfolding fc_word_def assms(1,2) by (rule be32w_low11)
  also have "\<dots> = take_bit 11 (ucast ?v :: u32)"
    by (simp only: hi_lo_word)
  finally have "fc_fl frame = unat (take_bit 11 (ucast ?v :: u32))"
    by (simp add: fc_fl_def)
  also have "\<dots> = take_bit 11 (unat (ucast ?v :: u32))"
    by (rule unsigned_take_bit_eq)
  also have "\<dots> = take_bit 11 (unat ?v)"
    by (simp only: unat_ucast_u16_u32)
  also have "\<dots> = unat (take_bit 11 ?v)"
    by (rule unsigned_take_bit_eq [symmetric])
  also have "\<dots> = unat (take_bit 11 fl)"
    by (simp only: v_low11)
  also have "\<dots> = take_bit 11 (unat fl)"
    by (rule unsigned_take_bit_eq)
  also have "\<dots> = unat fl"
    using assms(3) by (simp add: take_bit_nat_eq_self)
  finally show ?thesis .
qed

lemma eti_frame_fl_field:
  assumes "unat fl < 2048"
  shows "fc_fl (eti_pad (eti_layout (eti_sync e fct)
                  (eti_head (eti_fc_bytes fct ff n p m fl) stcs mn) c1 body c2 rf ts)) = unat fl"
proof (rule fc_fl_of_bytes [OF _ _ assms])
  let ?f = "eti_pad (eti_layout (eti_sync e fct)
                  (eti_head (eti_fc_bytes fct ff n p m fl) stcs mn) c1 body c2 rf ts)"
  obtain rest where f: "?f = eti_sync e fct @ eti_fc_bytes fct ff n p m fl @ rest"
    by (simp add: eti_pad_def eti_layout_def eti_head_def)
  show "?f ! 6 = hi8 (push_bit 13 (ucast p) OR push_bit 11 (ucast m) OR fl)"
    unfolding f by (simp add: eti_sync_def eti_fc_bytes_def Let_def)
  show "?f ! 7 = lo8 (push_bit 13 (ucast p) OR push_bit 11 (ucast m) OR fl)"
    unfolding f by (simp add: eti_sync_def eti_fc_bytes_def Let_def)
qed

lemma length_eti_layout:
  "length (eti_layout (eti_sync e fct) (eti_head (eti_fc_bytes fct ff n p m fl) stcs mn)
             c1 body c2 rf ts) =
     20 + length (concat stcs) + length body"
  by (simp add: eti_layout_def eti_head_def eti_sync_def eti_fc_bytes_def eti_tist_bytes_def
      Let_def)

lemma length_eti_pad: "length used \<le> 6144 \<Longrightarrow> length (eti_pad used) = 6144"
  by (simp add: eti_pad_def ETI_NI_RAW_SIZE_def)

lemma length_eti_stc:
  "length (concat (map (\<lambda>s. eti_stc_bytes (a s) (b s) (c s) (d s)) xs)) = 4 * length xs"
  by (induction xs) (simp_all add: eti_stc_bytes_def Let_def)

text \<open>FIC and MST follow SYNC, FC, the STC words and EOH: they start at byte \<open>12 + 4 * NST\<close>.\<close>

lemma eti_frame_body:
  assumes "length (concat stcs) = 4 * k"
  shows "take (length body) (drop (12 + 4 * k)
           (eti_pad (eti_layout (eti_sync e fct) (eti_head (eti_fc_bytes fct ff n p m fl) stcs mn)
              c1 body c2 rf ts))) = body"
proof -
  define pre where
    "pre = eti_sync e fct @ eti_head (eti_fc_bytes fct ff n p m fl) stcs mn @ [hi8 c1, lo8 c1]"
  have l: "length pre = 12 + 4 * k"
    using assms by (simp add: pre_def eti_sync_def eti_head_def eti_fc_bytes_def Let_def)
  obtain rest where
    "eti_pad (eti_layout (eti_sync e fct) (eti_head (eti_fc_bytes fct ff n p m fl) stcs mn)
       c1 body c2 rf ts) = pre @ body @ rest"
    by (simp add: pre_def eti_pad_def eti_layout_def)
  then show ?thesis
    using l by simp
qed

lemma eti_fl_small:
  assumes "4 * unat n + 4 + fic_len + length (concat msts) \<le> 6128"
  shows "unat (eti_fl n fic_len msts) =
           unat n + 1 + fic_len div 4 + sum_list (map (\<lambda>m. length m div 4) msts)"
    and "unat (eti_fl n fic_len msts) < 2048"
proof -
  let ?x = "unat n + 1 + fic_len div 4 + sum_list (map (\<lambda>m. length m div 4) msts)"
  have "?x * 4 \<le> 4 * unat n + 4 + fic_len + length (concat msts)"
    using sum_div4_le [of msts] by (simp add: add_mult_distrib)
  then have x: "?x \<le> 1532" using assms by simp
  then have "?x mod 2 ^ LENGTH(16) = ?x" by simp
  then show e: "unat (eti_fl n fic_len msts) = ?x"
    by (simp only: eti_fl_sum unat_of_nat)
  show "unat (eti_fl n fic_len msts) < 2048" using x by (simp only: e)
qed

lemma assembleEtiFrame_fl:
  assumes "assembleEtiFrame eti = Frame f"
  shows "fc_fl f = unat (nst (fc eti)) + 1 + length (fic eti) div 4 +
           sum_list (map (\<lambda>m. length m div 4) (map mst (take (unat (nst (fc eti))) (subchannels eti))))"
    and "length f = 6144"
    and "take (length (fic eti @ concat (map mst (take (unat (nst (fc eti))) (subchannels eti)))))
           (drop (12 + 4 * unat (nst (fc eti))) f) =
         fic eti @ concat (map mst (take (unat (nst (fc eti))) (subchannels eti)))"
proof -
  let ?n = "nst (fc eti)"
  let ?streams = "take (unat ?n) (subchannels eti)"
  let ?msts = "map mst ?streams"
  let ?idx = "8 + unat ?n * 4 + 4 + length (fic eti)"
  let ?fl = "eti_fl ?n (length (fic eti)) ?msts"
  have g: "length (fic eti) = (if mid (fc eti) = 3 then 128 else 96)"
    "unat ?n \<le> length (subchannels eti)"
    using assms by (auto simp: assembleEtiFrame_def split: if_splits)
  obtain r where r: "edi_copy_mst ?idx ?msts = Some r"
    using assms by (auto simp: assembleEtiFrame_def Let_def split: if_splits option.splits)
  have "unat ?n < 256" using unsigned_less [of ?n, where 'a = nat] by simp
  then have "?idx \<le> 6136" using g(1) by (simp split: if_splits)
  from edi_copy_mst_Some [OF r this]
  have rc: "r = concat ?msts"
    and fit: "4 * unat ?n + 4 + length (fic eti) + length (concat ?msts) \<le> 6128"
    by simp_all
  note fl = eti_fl_small [OF fit]
  obtain e fct ff p m stcs mn c1 c2 rf ts where
    f: "f = eti_pad (eti_layout (eti_sync e fct) (eti_head (eti_fc_bytes fct ff ?n p m ?fl) stcs mn)
              c1 (fic eti @ r) c2 rf ts)"
    and stcs: "length (concat stcs) = 4 * length ?streams"
    using assms r g
    by (auto simp: assembleEtiFrame_def Let_def length_eti_stc split: if_splits)
  show "fc_fl f = unat ?n + 1 + length (fic eti) div 4 + sum_list (map (\<lambda>m. length m div 4) ?msts)"
    unfolding f eti_frame_fl_field [OF fl(2)] by (rule fl(1))
  have n: "length ?streams = unat ?n" using g(2) by simp
  then show "length f = 6144"
    unfolding f using fit stcs rc
    by (intro length_eti_pad) (simp add: length_eti_layout)
  show "take (length (fic eti @ concat ?msts)) (drop (12 + 4 * unat ?n) f) = fic eti @ concat ?msts"
    unfolding f rc using stcs [unfolded n] by (rule eti_frame_body)
qed

lemma assemble_eti_frame_fl:
  assumes "assemble_eti_frame edi = Frame f"
  shows "fc_fl f = unat (efc_nst (m_fc edi)) + 1 + unat (fic_length edi) div 4 +
           sum_list (map (\<lambda>m. length m div 4)
             (map stc_mst (take (unat (efc_nst (m_fc edi))) (m_stc edi))))"
    and "length f = 6144"
    and "take (length (take (unat (fic_length edi)) (b_fic edi) @
                 concat (map stc_mst (take (unat (efc_nst (m_fc edi))) (m_stc edi)))))
           (drop (12 + 4 * unat (efc_nst (m_fc edi))) f) =
         take (unat (fic_length edi)) (b_fic edi) @
           concat (map stc_mst (take (unat (efc_nst (m_fc edi))) (m_stc edi)))"
proof -
  let ?n = "efc_nst (m_fc edi)"
  let ?streams = "take (unat ?n) (m_stc edi)"
  let ?msts = "map stc_mst ?streams"
  let ?fl = "eti_fl ?n (unat (fic_length edi)) ?msts"
  let ?body = "take (unat (fic_length edi)) (b_fic edi) @ concat ?msts"
  have g: "unat ?n \<le> length (m_stc edi)" "unat (fic_length edi) \<le> length (b_fic edi)"
    using assms by (auto simp: assemble_eti_frame_def split: if_splits)
  obtain e fct ff p m stcs mn c1 c2 rf ts where
    f: "f = eti_pad (eti_layout (eti_sync e fct) (eti_head (eti_fc_bytes fct ff ?n p m ?fl) stcs mn)
              c1 ?body c2 rf ts)"
    and stcs: "length (concat stcs) = 4 * length ?streams"
    and fits: "length (eti_layout (eti_sync e fct) (eti_head (eti_fc_bytes fct ff ?n p m ?fl) stcs mn)
              c1 ?body c2 rf ts) \<le> 6144"
    using assms
    by (auto simp: assemble_eti_frame_def Let_def ETI_NI_RAW_SIZE_def length_eti_stc
        split: if_splits)
  have n: "length ?streams = unat ?n" using g(1) by simp
  have fit: "4 * unat ?n + 4 + unat (fic_length edi) + length (concat ?msts) \<le> 6128"
    using fits g(2) stcs n by (simp add: length_eti_layout)
  note fl = eti_fl_small [OF fit]
  show "fc_fl f = unat ?n + 1 + unat (fic_length edi) div 4 +
           sum_list (map (\<lambda>m. length m div 4) ?msts)"
    unfolding f eti_frame_fl_field [OF fl(2)] by (rule fl(1))
  show "length f = 6144"
    unfolding f using fits by (rule length_eti_pad)
  show "take (length ?body) (drop (12 + 4 * unat ?n) f) = ?body"
    unfolding f using stcs [unfolded n] by (rule eti_frame_body)
qed

lemma frame_fl_Some: "frame_fl r = Some l \<longleftrightarrow> (\<exists>f. r = Frame f \<and> fc_fl f = l)"
  by (cases r) (auto simp: frame_fl_def)

lemma one_stream_builder_emits:
  assumes "length m \<le> 6000"
  shows "frame_fl (assembleEtiFrame (one_stream_builder m)) = Some (26 + length m div 4)"
proof -
  let ?b = "one_stream_builder m"
  have "assembleEtiFrame ?b \<noteq> NoFrame \<and> assembleEtiFrame ?b \<noteq> OutOfBounds"
    using assms by (simp add: assembleEtiFrame_def one_stream_builder_def Let_def)
  then obtain f where f: "assembleEtiFrame ?b = Frame f"
    by (cases "assembleEtiFrame ?b") auto
  have "fc_fl f = 26 + length m div 4"
    using assembleEtiFrame_fl(1) [OF f] by (simp add: one_stream_builder_def)
  then show ?thesis by (simp add: f frame_fl_def)
qed

lemma one_stream_edi_emits:
  assumes "length m \<le> 6000"
  shows "frame_fl (assemble_eti_frame (one_stream_edi m)) = Some (26 + length m div 4)"
proof -
  let ?b = "one_stream_edi m"
  have "assemble_eti_frame ?b \<noteq> NoFrame \<and> assemble_eti_frame ?b \<noteq> OutOfBounds"
    using assms
    by (simp add: assemble_eti_frame_def one_stream_edi_def Let_def length_eti_layout
        eti_stc_bytes_def ETI_NI_RAW_SIZE_def)
  then obtain f where f: "assemble_eti_frame ?b = Frame f"
    by (cases "assemble_eti_frame ?b") auto
  have "fc_fl f = 26 + length m div 4"
    using assemble_eti_frame_fl(1) [OF f] by (simp add: one_stream_edi_def)
  then show ?thesis by (simp add: f frame_fl_def)
qed

text \<open>
  C1, as stated, fails in its second half: FL counts whole 32-bit words of each stream,
  so with one stream of 5 bytes the frame has FL = 27, that is 108 bytes, while
  \<open>NST * 4 + 4 + FIC_len + MST_len\<close> is 109.
\<close>

theorem eti_fl_rounds_down:
  "frame_fl (assembleEtiFrame (one_stream_builder [1, 2, 3, 4, 5])) = Some 27 \<and>
   frame_fl (assemble_eti_frame (one_stream_edi [1, 2, 3, 4, 5])) = Some 27 \<and>
   unat (nst (fc (one_stream_builder [1, 2, 3, 4, 5]))) * 4 + 4 +
     length (fic (one_stream_builder [1, 2, 3, 4, 5])) + length [1 :: u8, 2, 3, 4, 5] = 109"
  using one_stream_builder_emits [of "[1, 2, 3, 4, 5]"] one_stream_edi_emits [of "[1, 2, 3, 4, 5]"]
  by (simp add: one_stream_builder_def)

text \<open>
  C1, amended. For every frame emitted by either assembler, the FL field in FC bytes 6
  and 7 equals \<open>NST + 1 + fic_len div 4\<close> plus the sum over the first NST streams of
  \<open>mst_len div 4\<close>, the divisions rounding down. FIC and MST lie in the frame from byte
  \<open>12 + 4 * NST\<close> on. When every one of these MST lengths is a multiple of 4,
  \<open>FL * 4 = NST * 4 + 4 + FIC_len + \<Sum> MST_len\<close>, and the MST ends just before byte
  \<open>8 + FL * 4\<close>: \<open>FL * 4\<close> is the count of bytes from byte 8, the first after FC, to the
  end of the MST, and from byte 4 the count is \<open>FL * 4 + 4\<close>.
\<close>

theorem eti_frame_length_field:
  "(assembleEtiFrame eti = Frame f \<longrightarrow>
      (let n = unat (nst (fc eti)); ss = take n (subchannels eti);
           body = fic eti @ concat (map mst ss)
       in fc_fl f = n + 1 + length (fic eti) div 4 + sum_list (map (\<lambda>s. length (mst s) div 4) ss) \<and>
          take (length body) (drop (12 + 4 * n) f) = body \<and>
          (list_all (\<lambda>s. length (mst s) mod 4 = 0) ss \<longrightarrow>
             fc_fl f * 4 = n * 4 + 4 + length (fic eti) + sum_list (map (\<lambda>s. length (mst s)) ss) \<and>
             8 + fc_fl f * 4 = 12 + 4 * n + length body \<and>
             12 + 4 * n + length body - 4 = fc_fl f * 4 + 4))) \<and>
   (assemble_eti_frame edi = Frame g \<longrightarrow>
      (let n = unat (efc_nst (m_fc edi)); ss = take n (m_stc edi);
           body = take (unat (fic_length edi)) (b_fic edi) @ concat (map stc_mst ss)
       in fc_fl g = n + 1 + unat (fic_length edi) div 4 +
                    sum_list (map (\<lambda>s. length (stc_mst s) div 4) ss) \<and>
          take (length body) (drop (12 + 4 * n) g) = body \<and>
          (list_all (\<lambda>s. length (stc_mst s) mod 4 = 0) ss \<longrightarrow>
             fc_fl g * 4 = n * 4 + 4 + unat (fic_length edi) +
                           sum_list (map (\<lambda>s. length (stc_mst s)) ss) \<and>
             8 + fc_fl g * 4 = 12 + 4 * n + length body \<and>
             12 + 4 * n + length body - 4 = fc_fl g * 4 + 4)))"
proof (intro conjI impI)
  let ?n = "unat (nst (fc eti))"
  let ?ss = "take ?n (subchannels eti)"
  let ?body = "fic eti @ concat (map mst ?ss)"
  assume f: "assembleEtiFrame eti = Frame f"
  have l1: "fc_fl f = ?n + 1 + length (fic eti) div 4 + sum_list (map (\<lambda>s. length (mst s) div 4) ?ss)"
    using assembleEtiFrame_fl(1) [OF f] by (simp add: comp_def)
  have pos: "take (length ?body) (drop (12 + 4 * ?n) f) = ?body"
    by (rule assembleEtiFrame_fl(3) [OF f])
  have fic4: "length (fic eti) div 4 * 4 = length (fic eti)"
    using f by (auto simp: assembleEtiFrame_def split: if_splits)
  have len: "length (concat (map mst ?ss)) = sum_list (map (\<lambda>s. length (mst s)) ?ss)"
    by (simp add: length_concat comp_def)
  have exact: "fc_fl f * 4 = ?n * 4 + 4 + length (fic eti) + sum_list (map (\<lambda>s. length (mst s)) ?ss)"
    if "list_all (\<lambda>s. length (mst s) mod 4 = 0) ?ss"
  proof -
    have "list_all (\<lambda>m. length m mod 4 = 0) (map mst ?ss)"
      using that by (simp add: list_all_iff)
    from sum_div4_exact [OF this]
    have "sum_list (map (\<lambda>s. length (mst s) div 4) ?ss) * 4 = sum_list (map (\<lambda>s. length (mst s)) ?ss)"
      by (simp add: comp_def)
    then show ?thesis
      unfolding l1 using fic4 by (simp add: add_mult_distrib)
  qed
  show "let n = ?n; ss = take n (subchannels eti); body = fic eti @ concat (map mst ss)
       in fc_fl f = n + 1 + length (fic eti) div 4 + sum_list (map (\<lambda>s. length (mst s) div 4) ss) \<and>
          take (length body) (drop (12 + 4 * n) f) = body \<and>
          (list_all (\<lambda>s. length (mst s) mod 4 = 0) ss \<longrightarrow>
             fc_fl f * 4 = n * 4 + 4 + length (fic eti) + sum_list (map (\<lambda>s. length (mst s)) ss) \<and>
             8 + fc_fl f * 4 = 12 + 4 * n + length body \<and>
             12 + 4 * n + length body - 4 = fc_fl f * 4 + 4)"
    unfolding Let_def using l1 pos exact len by auto
next
  let ?n = "unat (efc_nst (m_fc edi))"
  let ?ss = "take ?n (m_stc edi)"
  let ?fic = "take (unat (fic_length edi)) (b_fic edi)"
  let ?body = "?fic @ concat (map stc_mst ?ss)"
  assume g: "assemble_eti_frame edi = Frame g"
  have k1: "fc_fl g = ?n + 1 + unat (fic_length edi) div 4 +
          sum_list (map (\<lambda>s. length (stc_mst s) div 4) ?ss)"
    using assemble_eti_frame_fl(1) [OF g] by (simp add: comp_def)
  have pos: "take (length ?body) (drop (12 + 4 * ?n) g) = ?body"
    by (rule assemble_eti_frame_fl(3) [OF g])
  have "fic_length edi = 128 \<or> fic_length edi = 96"
    using g by (auto simp: assemble_eti_frame_def split: if_splits)
  then have fic4: "unat (fic_length edi) div 4 * 4 = unat (fic_length edi)"
    by auto
  have "unat (fic_length edi) \<le> length (b_fic edi)"
    using g by (auto simp: assemble_eti_frame_def split: if_splits)
  then have len: "length ?body = unat (fic_length edi) + sum_list (map (\<lambda>s. length (stc_mst s)) ?ss)"
    by (simp add: length_concat comp_def)
  have exact: "fc_fl g * 4 = ?n * 4 + 4 + unat (fic_length edi) +
                 sum_list (map (\<lambda>s. length (stc_mst s)) ?ss)"
    if "list_all (\<lambda>s. length (stc_mst s) mod 4 = 0) ?ss"
  proof -
    have "list_all (\<lambda>m. length m mod 4 = 0) (map stc_mst ?ss)"
      using that by (simp add: list_all_iff)
    from sum_div4_exact [OF this]
    have "sum_list (map (\<lambda>s. length (stc_mst s) div 4) ?ss) * 4 =
          sum_list (map (\<lambda>s. length (stc_mst s)) ?ss)"
      by (simp add: comp_def)
    then show ?thesis
      unfolding k1 using fic4 by (simp add: add_mult_distrib)
  qed
  show "let n = ?n; ss = take n (m_stc edi);
           body = take (unat (fic_length edi)) (b_fic edi) @ concat (map stc_mst ss)
       in fc_fl g = n + 1 + unat (fic_length edi) div 4 +
                    sum_list (map (\<lambda>s. length (stc_mst s) div 4) ss) \<and>
          take (length body) (drop (12 + 4 * n) g) = body \<and>
          (list_all (\<lambda>s. length (stc_mst s) mod 4 = 0) ss \<longrightarrow>
             fc_fl g * 4 = n * 4 + 4 + unat (fic_length edi) +
                           sum_list (map (\<lambda>s. length (stc_mst s)) ss) \<and>
             8 + fc_fl g * 4 = 12 + 4 * n + length body \<and>
             12 + 4 * n + length body - 4 = fc_fl g * 4 + 4)"
    unfolding Let_def using k1 pos exact len by auto
qed

text \<open>
  One stream of 8 bytes: both assemblers emit a frame with FL 28 that holds the 96
  bytes of FIC and the 8 of MST from byte 16 on, up to byte \<open>8 + 28 * 4 = 120\<close>.
\<close>

theorem eti_frame_length_field_witness:
  "(case assembleEtiFrame (one_stream_builder [1, 2, 3, 4, 5, 6, 7, 8]) of
      Frame f \<Rightarrow> fc_fl f = 28 \<and>
                 take 104 (drop 16 f) = replicate 96 0 @ [1, 2, 3, 4, 5, 6, 7, 8]
    | NoFrame \<Rightarrow> False | OutOfBounds \<Rightarrow> False) \<and>
   (case assemble_eti_frame (one_stream_edi [1, 2, 3, 4, 5, 6, 7, 8]) of
      Frame g \<Rightarrow> fc_fl g = 28 \<and>
                 take 104 (drop 16 g) = replicate 96 0 @ [1, 2, 3, 4, 5, 6, 7, 8]
    | NoFrame \<Rightarrow> False | OutOfBounds \<Rightarrow> False)"
proof -
  let ?m = "[1, 2, 3, 4, 5, 6, 7, 8] :: u8 list"
  obtain f where f: "assembleEtiFrame (one_stream_builder ?m) = Frame f"
    using one_stream_builder_emits [of ?m] by (auto simp: frame_fl_Some)
  obtain g where g: "assemble_eti_frame (one_stream_edi ?m) = Frame g"
    using one_stream_edi_emits [of ?m] by (auto simp: frame_fl_Some)
  note t = eti_frame_length_field [of "one_stream_builder ?m" f "one_stream_edi ?m" g]
  have "fc_fl f = 28 \<and> take 104 (drop 16 f) = replicate 96 0 @ ?m"
    using t f by (simp add: one_stream_builder_def Let_def)
  moreover have "fc_fl g = 28 \<and> take 104 (drop 16 g) = replicate 96 0 @ ?m"
    using t g by (simp add: one_stream_edi_def Let_def)
  ultimately show ?thesis
    by (simp add: f g)
qed

section \<open>GSE fragment reassembly\<close>

lemma length_buf_write:
  "pos + length src \<le> length dst \<Longrightarrow> length (buf_write dst pos src) = length dst"
  by (simp add: buf_write_def)

lemma length_vector_resize: "length (vector_resize n xs) = n"
  by (simp add: vector_resize_def)

lemma gse_first_ok: "gse_frag_ok (gse_first old d total_len)"
  by (simp add: gse_first_def gse_frag_ok_def Let_def length_buf_write length_vector_resize)

lemma gse_append_ok: "gse_frag_ok f \<Longrightarrow> gse_frag_ok (gse_append f payload)"
  by (auto simp: gse_append_def gse_frag_ok_def length_buf_write)

lemma gse_append_fields:
  "active (gse_append f payload) = active f"
  "total_length (gse_append f payload) = total_length f"
  by (simp_all add: gse_append_def)

lemma gse_append_accumulated:
  assumes "gse_frag_ok f" "active f"
  shows "gse_accumulated (gse_append f payload) =
           (if current_pos f + length payload \<le> total_length f
            then gse_accumulated f @ payload else gse_accumulated f)"
proof (cases "current_pos f + length payload \<le> total_length f")
  case False
  then show ?thesis using assms by (simp add: gse_append_def gse_frag_ok_def)
next
  case True
  let ?cp = "current_pos f" and ?d = "frag_data f"
  have l: "length ?d = total_length f" and cp: "2 \<le> ?cp" "?cp \<le> length ?d"
    using assms by (simp_all add: gse_frag_ok_def)
  have a: "drop 2 (take ?cp ?d @ payload @ drop (?cp + length payload) ?d) =
           take (?cp - 2) (drop 2 ?d) @ payload @ drop (?cp + length payload) ?d"
    using cp by (simp add: drop_take)
  have b: "length (take (?cp - 2) (drop 2 ?d)) = ?cp - 2"
    using cp by simp
  have c: "?cp + length payload - 2 = (?cp - 2) + length payload"
    using cp by simp
  have "take (?cp + length payload - 2)
          (take (?cp - 2) (drop 2 ?d) @ payload @ drop (?cp + length payload) ?d) =
        take (?cp - 2) (drop 2 ?d) @ payload"
    unfolding c using b by (simp del: length_take length_drop)
  then show ?thesis
    using True l a by (simp add: gse_append_def gse_accumulated_def buf_write_def)
qed

lemma processGsePacket_ok:
  assumes "\<And>i. gse_frag_ok (gse_fragments st i)"
  shows "gse_frag_ok (gse_fragments (fst (gse_step st d)) i)"
  using assms
  by (auto simp: gse_step_def processGsePacket_def Let_def gse_first_ok gse_append_ok
      gse_frag_ok_def [of "_\<lparr>active := False\<rparr>"])

lemma gse_run_ok: "gse_frag_ok (gse_fragments (fst (gse_run gse_reset ds)) i)"
proof -
  have "\<forall>i. gse_frag_ok (gse_fragments (fst (run_steps gse_step st ds)) i)"
    if "\<forall>i. gse_frag_ok (gse_fragments st i)" for st
    using that
  proof (induction ds arbitrary: st)
    case Nil
    then show ?case by simp
  next
    case (Cons d ds)
    have "\<forall>i. gse_frag_ok (gse_fragments (fst (gse_step st d)) i)"
      using Cons.prems processGsePacket_ok by blast
    from Cons.IH [OF this] show ?case by (simp add: split_beta Let_def)
  qed
  moreover have "\<forall>i. gse_frag_ok (gse_fragments gse_reset i)"
    by (simp add: gse_reset_def gse_frag_ok_def GseFragment_new_def)
  ultimately show ?thesis by (simp add: gse_run_def)
qed

lemma gse_middle_step:
  assumes "gse_middle_for i d" "active (gse_fragments st i)"
  shows "gse_step st d =
           (st\<lparr>gse_fragments := (gse_fragments st)
                  (i := gse_append (gse_fragments st i) (gse_middle_payload d)),
               gse_fragment_count := gse_fragment_count st + 1\<rparr>, [])"
  using assms
  by (auto simp: gse_step_def processGsePacket_def Let_def gse_middle_for_def gse_packet_ok_def
      gse_middle_payload_def)

lemma gse_last_step:
  assumes "gse_last_for i d" "active (gse_fragments st i)"
  shows "gse_step st d =
           (st\<lparr>gse_fragments := (gse_fragments st)
                  (i := (gse_append (gse_fragments st i) (gse_last_payload d))\<lparr>active := False\<rparr>),
               gse_packet_count := gse_packet_count st + 1,
               gse_fragment_count := gse_fragment_count st + 1\<rparr>,
            handleCompleteGsePayload
              (gse_accumulated (gse_append (gse_fragments st i) (gse_last_payload d))))"
  using assms
  by (auto simp: gse_step_def processGsePacket_def Let_def gse_last_for_def gse_packet_ok_def
      gse_last_payload_def)

lemma gse_after_first_7:
  "active (gse_fragments gse_after_first 7)"
  "current_pos (gse_fragments gse_after_first 7) = 24"
  "total_length (gse_fragments gse_after_first 7) = 102"
  "gse_accumulated (gse_fragments gse_after_first 7) = [0x08, 0x00] @ ip_header_20"
  by code_simp+

lemma gse_test_fragments:
  "gse_middle_for 7 gse_middle_fragment" "gse_last_for 7 gse_last_fragment"
  "gse_middle_for 7 gse_oversize_fragment"
  "gse_middle_payload gse_middle_fragment = [0xAA, 0xBB]"
  "gse_last_payload gse_last_fragment = []"
  "length (gse_middle_payload gse_oversize_fragment) = 79"
  by (simp_all add: gse_middle_for_def gse_last_for_def gse_packet_ok_def gse_length_def
      gse_start_def gse_stop_def be16_def gse_middle_fragment_def gse_last_fragment_def
      gse_oversize_fragment_def gse_middle_payload_def gse_last_payload_def)

lemma handle_ip_header_20:
  "handleCompleteGsePayload ([0x08, 0x00] @ ip_header_20) = [ip_header_20]"
  by (simp add: handleCompleteGsePayload_def be16_def ip_header_20_def emitIpv4Packet_def Let_def)

text \<open>
  C10, as stated, does not hold. A first fragment for ID 7 announces a total length of
  100 bytes and brings 22 of them: the buffer is active with \<open>current_pos = 24\<close> and
  \<open>total_length = 102\<close>. A last fragment for ID 7 that brings no payload is then answered
  with the emission of the 20 stored bytes of the IPv4 packet, although \<open>current_pos\<close>
  never reached \<open>total_length\<close>. And a middle fragment whose 79 bytes do not fit is
  skipped: the buffer is not discarded, it stays active with what it held.
\<close>

theorem gse_emits_before_total_length:
  "active (gse_fragments gse_after_first 7)
   \<and> current_pos (gse_fragments gse_after_first 7) = 24
   \<and> total_length (gse_fragments gse_after_first 7) = 102
   \<and> gse_last_for 7 gse_last_fragment
   \<and> snd (gse_step gse_after_first gse_last_fragment) = [ip_header_20]
   \<and> gse_middle_for 7 gse_oversize_fragment
   \<and> active (gse_fragments (fst (gse_step gse_after_first gse_oversize_fragment)) 7)
   \<and> current_pos (gse_fragments (fst (gse_step gse_after_first gse_oversize_fragment)) 7) = 24"
proof -
  have ok: "gse_frag_ok (gse_fragments gse_after_first 7)"
    using gse_run_ok [of "[gse_first_fragment]" 7] by (simp add: gse_after_first_def)
  have "gse_accumulated (gse_append (gse_fragments gse_after_first 7)
          (gse_last_payload gse_last_fragment)) = [0x08, 0x00] @ ip_header_20"
    using gse_append_accumulated [OF ok gse_after_first_7(1), of "gse_last_payload gse_last_fragment"]
    by (simp add: gse_test_fragments(5) gse_after_first_7)
  then have l: "snd (gse_step gse_after_first gse_last_fragment) = [ip_header_20]"
    using handle_ip_header_20
    by (simp add: gse_last_step [OF gse_test_fragments(2) gse_after_first_7(1)])
  have m: "gse_append (gse_fragments gse_after_first 7) (gse_middle_payload gse_oversize_fragment)
           = gse_fragments gse_after_first 7"
    using ok gse_after_first_7 (1,2,3)
    by (simp add: gse_append_def gse_test_fragments(6) gse_frag_ok_def)
  show ?thesis
    using l gse_after_first_7 (1,2,3) gse_test_fragments (2,3)
    by (simp add: gse_middle_step [OF gse_test_fragments(3) gse_after_first_7(1)] m)
qed

text \<open>
  C10, amended. In every state reached from the reset parser, an active buffer for the
  fragment ID \<open>i\<close> holds \<open>total_length\<close> bytes and \<open>current_pos\<close> lies between 2 and
  \<open>total_length\<close>. A middle fragment for \<open>i\<close> emits nothing and leaves the buffer active
  with the same \<open>total_length\<close>; a last fragment for \<open>i\<close> deactivates the buffer and hands
  the accumulated bytes to \<open>handleCompleteGsePayload\<close>, whether or not \<open>current_pos\<close>
  reached \<open>total_length\<close>. In both cases the payload is appended when it fits
  (\<open>current_pos\<close> plus its length is at most \<open>total_length\<close>) and is skipped otherwise,
  the buffer keeping what it held.
\<close>

theorem gse_fragments_append_while_fitting:
  assumes "st = fst (gse_run gse_reset ds)" and "f = gse_fragments st i" and "active f"
  shows "length (frag_data f) = total_length f \<and> 2 \<le> current_pos f
         \<and> current_pos f \<le> total_length f
         \<and> (gse_middle_for i d \<longrightarrow>
              snd (gse_step st d) = []
              \<and> active (gse_fragments (fst (gse_step st d)) i)
              \<and> total_length (gse_fragments (fst (gse_step st d)) i) = total_length f
              \<and> gse_accumulated (gse_fragments (fst (gse_step st d)) i) =
                  (if current_pos f + length (gse_middle_payload d) \<le> total_length f
                   then gse_accumulated f @ gse_middle_payload d else gse_accumulated f))
         \<and> (gse_last_for i d \<longrightarrow>
              \<not> active (gse_fragments (fst (gse_step st d)) i)
              \<and> snd (gse_step st d) = handleCompleteGsePayload
                  (if current_pos f + length (gse_last_payload d) \<le> total_length f
                   then gse_accumulated f @ gse_last_payload d else gse_accumulated f))"
proof -
  have ok: "gse_frag_ok f"
    using assms(1,2) gse_run_ok by simp
  have a: "active (gse_fragments st i)"
    using assms(2,3) by simp
  have inv: "length (frag_data f) = total_length f \<and> 2 \<le> current_pos f
             \<and> current_pos f \<le> total_length f"
    using ok assms(3) by (simp add: gse_frag_ok_def)
  have mid: "snd (gse_step st d) = []
             \<and> active (gse_fragments (fst (gse_step st d)) i)
             \<and> total_length (gse_fragments (fst (gse_step st d)) i) = total_length f
             \<and> gse_accumulated (gse_fragments (fst (gse_step st d)) i) =
                 (if current_pos f + length (gse_middle_payload d) \<le> total_length f
                  then gse_accumulated f @ gse_middle_payload d else gse_accumulated f)"
    if m: "gse_middle_for i d"
    using gse_append_accumulated [OF ok assms(3), of "gse_middle_payload d"] assms(3)
    by (simp add: gse_middle_step [OF m a] gse_append_fields assms(2) [symmetric])
  have last: "\<not> active (gse_fragments (fst (gse_step st d)) i)
              \<and> snd (gse_step st d) = handleCompleteGsePayload
                  (if current_pos f + length (gse_last_payload d) \<le> total_length f
                   then gse_accumulated f @ gse_last_payload d else gse_accumulated f)"
    if l: "gse_last_for i d"
    using gse_append_accumulated [OF ok assms(3), of "gse_last_payload d"]
    by (simp add: gse_last_step [OF l a] assms(2) [symmetric])
  show ?thesis using inv mid last by blast
qed

theorem gse_fragments_append_while_fitting_witness:
  "gse_after_first = fst (gse_run gse_reset [gse_first_fragment])
   \<and> active (gse_fragments gse_after_first 7)
   \<and> gse_middle_for 7 gse_middle_fragment
   \<and> gse_last_for 7 gse_last_fragment
   \<and> snd (gse_step gse_after_first gse_middle_fragment) = []
   \<and> gse_accumulated (gse_fragments (fst (gse_step gse_after_first gse_middle_fragment)) 7) =
       [0x08, 0x00] @ ip_header_20 @ [0xAA, 0xBB]
   \<and> \<not> active (gse_fragments (fst (gse_step gse_after_first gse_last_fragment)) 7)"
  using gse_fragments_append_while_fitting
    [OF gse_after_first_def refl gse_after_first_7(1), of gse_middle_fragment]
    gse_fragments_append_while_fitting
    [OF gse_after_first_def refl gse_after_first_7(1), of gse_last_fragment]
    gse_after_first_7 gse_test_fragments
  by (simp add: gse_after_first_def [symmetric])

section \<open>FIC parser: what process\_fic leaves alone\<close>

lemma map_put_not_Nil: "map_put k v m \<noteq> []"
  by (cases m) (auto split: if_splits)

lemma fic_keeps_refl: "fic_keeps st st"
  by (simp add: fic_keeps_def)

lemma fic_keeps_trans: "fic_keeps a b \<Longrightarrow> fic_keeps b c \<Longrightarrow> fic_keeps a c"
  by (auto simp: fic_keeps_def split: if_splits)

lemma fig_0_0_keeps: "fic_keeps st (fig_0_0 data st)"
  by (simp add: fig_0_0_def fic_keeps_def Let_def)

lemma fig_0_1_keeps: "fic_keeps st (fig_0_1 data st)"
proof (induction data st rule: fig_0_1.induct)
  case (1 data st)
  show ?case
  proof (cases "length data < 3 \<or> (drop_bit 7 (data ! 2) AND 0x01 \<noteq> 0 \<and> length data < 4)")
    case True
    then show ?thesis by (auto simp: fig_0_1.simps [of data st] fic_keeps_refl Let_def)
  next
    case False
    let ?sc = "fig_0_1_entry data (dab_subchannels st)"
    let ?st = "st\<lparr>dab_subchannels := map_put (subchid ?sc) ?sc (dab_subchannels st)\<rparr>"
    have a: "fic_keeps st ?st" by (simp add: fic_keeps_def)
    have b: "fic_keeps ?st (fig_0_1 (drop (if drop_bit 7 (data ! 2) AND 0x01 \<noteq> 0 then 4 else 3) data) ?st)"
      using 1 [OF _ refl _ refl] False by auto
    have "fig_0_1 data st = fig_0_1 (drop (if drop_bit 7 (data ! 2) AND 0x01 \<noteq> 0 then 4 else 3) data) ?st"
      using False by (auto simp: fig_0_1.simps [of data st] Let_def)
    then show ?thesis using fic_keeps_trans [OF a b] by simp
  qed
qed

lemma fig_0_2_service_keeps: "fic_keeps st (snd (fig_0_2_service pd data st))"
  by (simp add: fig_0_2_service_def fic_keeps_def Let_def map_put_not_Nil)

lemma fig_0_2_keeps: "fic_keeps st (fig_0_2 pd data st)"
proof (induction pd data st rule: fig_0_2.induct)
  case (1 pd data st)
  show ?case
  proof (cases "length data < (if pd then 5 else 3)")
    case True
    then show ?thesis by (simp add: fig_0_2.simps [of pd data st] fic_keeps_refl)
  next
    case False
    have "fic_keeps (snd (fig_0_2_service pd data st))
            (fig_0_2 pd (fst (fig_0_2_service pd data st)) (snd (fig_0_2_service pd data st)))"
      using 1 False by simp
    then have "fic_keeps st
            (fig_0_2 pd (fst (fig_0_2_service pd data st)) (snd (fig_0_2_service pd data st)))"
      using fic_keeps_trans fig_0_2_service_keeps by blast
    then show ?thesis using False by (simp add: fig_0_2.simps [of pd data st])
  qed
qed

lemma process_fig_keeps: "fic_keeps st (process_fig hdr fig st)"
proof -
  have "fic_keeps st (process_fig_0 data ext pd st)" for data ext pd
    by (simp add: process_fig_0_def fig_0_0_keeps fig_0_1_keeps fig_0_2_keeps fic_keeps_refl)
  moreover have "fic_keeps st (process_fig_1 data ext st)" for data ext
    by (simp add: process_fig_1_def fic_keeps_def)
  ultimately show ?thesis
    by (simp add: process_fig_def Let_def fic_keeps_refl)
qed

lemma fib_figs_keeps: "fic_keeps st (fib_figs fib pos st)"
proof (induction fib pos st rule: fib_figs.induct)
  case (1 fib pos st)
  let ?n = "unat (fib ! pos AND 0x1F)"
  show ?case
  proof (cases "pos < 30 \<and> fib ! pos \<noteq> 0xFF \<and> \<not> pos + 1 + ?n > 30")
    case False
    then show ?thesis by (auto simp: fib_figs.simps [of fib pos st] fic_keeps_refl Let_def)
  next
    case True
    let ?st = "process_fig (fib ! pos) (take ?n (drop (pos + 1) fib)) st"
    have "fic_keeps ?st (fib_figs fib (pos + 1 + ?n) ?st)"
      using 1 [OF _ _ refl] True by simp
    then have "fic_keeps st (fib_figs fib (pos + 1 + ?n) ?st)"
      using fic_keeps_trans process_fig_keeps by blast
    then show ?thesis using True by (simp add: fib_figs.simps [of fib pos st] Let_def)
  qed
qed

lemma process_fic_keeps: "fic_keeps st (process_fic fic_data st)"
proof (induction fic_data st rule: process_fic.induct)
  case (1 fic_data st)
  show ?case
  proof (cases "length fic_data < 32")
    case True
    then show ?thesis by (simp add: process_fic.simps [of fic_data st] fic_keeps_refl)
  next
    case False
    have a: "fic_keeps st (process_fib (take 32 fic_data) st)"
      by (simp add: process_fib_def fib_figs_keeps fic_keeps_refl)
    have "fic_keeps (process_fib (take 32 fic_data) st)
            (process_fic (drop 32 fic_data) (process_fib (take 32 fic_data) st))"
      using 1 False by simp
    then show ?thesis
      using False fic_keeps_trans [OF a] by (simp add: process_fic.simps [of fic_data st])
  qed
qed

section \<open>FIC parser: one frame\<close>

lemma process_eti_frame_skipped:
  assumes "labelled st \<or> \<not> fic_frame frame"
  shows "fst (process_eti_frame st frame) = st\<lparr>eti_call_count := eti_call_count st + 1\<rparr>"
  using assms by (auto simp: process_eti_frame_def fic_frame_def Let_def)

lemma process_eti_frame_unfold:
  assumes "\<not> labelled st" and "fic_frame frame"
  shows "process_eti_frame st frame =
           completion_check (basic_ready_check
             (let st1 = process_fic (take (frame_fic_len frame) (drop (frame_stc_end frame) frame))
                          (st\<lparr>eti_call_count := eti_call_count st + 1\<rparr>)
              in if service_map st1 \<noteq> [] then build_ensemble st1 else st1))"
proof -
  have "\<not> length frame < 8"
    and "\<not> (frame_sync frame \<noteq> ETI_NI_FSYNC0 \<and> frame_sync frame \<noteq> ETI_NI_FSYNC1)"
    and "fc_ficf frame \<noteq> 0"
    and "\<not> frame_stc_end frame + frame_fic_len frame > length frame"
    using assms(2) by (auto simp: fic_frame_def)
  then show ?thesis
    using assms(1) unfolding process_eti_frame_def Let_def
    by (cases "frame_sync frame = ETI_NI_FSYNC0") simp_all
qed

lemma completion_check_returns:
  "\<not> labelled st \<Longrightarrow> snd (completion_check st) = labelled (fst (completion_check st))"
  by (simp add: completion_check_def Let_def)

text \<open>The state between \<open>process_fic\<close> and the completion detector.\<close>

lemma build_ensemble_fields:
  "service_map (build_ensemble st) = service_map st"
  "service_labels (build_ensemble st) = service_labels st"
  "ensemble_label (build_ensemble st) = ensemble_label st"
  "last_service_count (build_ensemble st) = last_service_count st"
  "stable_frames (build_ensemble st) = stable_frames st"
  "labelled (build_ensemble st) = labelled st"
  by (simp_all add: build_ensemble_def)

lemma basic_ready_check_fields:
  "service_map (basic_ready_check st) = service_map st"
  "service_labels (basic_ready_check st) = service_labels st"
  "ensemble_label (basic_ready_check st) = ensemble_label st"
  "last_service_count (basic_ready_check st) = last_service_count st"
  "stable_frames (basic_ready_check st) = stable_frames st"
  "labelled (basic_ready_check st) = labelled st"
  by (simp_all add: basic_ready_check_def Let_def)

lemma labelled_count_all:
  "(labelled_count st = length (service_map st)) = all_labelled st"
proof -
  have "(length (filter P xs) = length xs) = list_all P xs" for P and xs :: "'a list"
    by (induction xs) (auto simp: le_imp_less_Suc [OF length_filter_le, THEN less_imp_neq])
  then show ?thesis
    by (simp add: labelled_count_def all_labelled_def)
qed

lemma completion_check_step:
  assumes "\<not> labelled st"
  shows "service_map (fst (completion_check st)) = service_map st"
    and "service_labels (fst (completion_check st)) = service_labels st"
    and "ensemble_label (fst (completion_check st)) = ensemble_label st"
    and "service_map st = [] \<Longrightarrow> fst (completion_check st) = st"
    and "service_map st \<noteq> [] \<Longrightarrow> length (service_map st) \<noteq> last_service_count st \<Longrightarrow>
           last_service_count (fst (completion_check st)) = length (service_map st)
           \<and> stable_frames (fst (completion_check st)) = 0"
    and "service_map st \<noteq> [] \<Longrightarrow> length (service_map st) = last_service_count st \<Longrightarrow>
           last_service_count (fst (completion_check st)) = last_service_count st
           \<and> stable_frames (fst (completion_check st)) = stable_frames st + 1"
    and "labelled (fst (completion_check st)) \<Longrightarrow>
           all_labelled st \<and> ensemble_label st \<noteq> []
           \<and> 10 \<le> stable_frames (fst (completion_check st))"
  using assms
  by (auto simp: completion_check_def Let_def labelled_count_all split: if_splits)

text \<open>
  One FIC frame in a parser that is not complete: the service map stays non-empty, the
  stability count restarts when the number of services differs from the one recorded
  and grows by one otherwise, and completion needs all labels, the ensemble label and
  a stability count of 10.
\<close>

lemma process_eti_frame_fic:
  assumes nl: "\<not> labelled st" and ff: "fic_frame frame"
  defines "st' \<equiv> fst (process_eti_frame st frame)"
  shows "service_map st \<noteq> [] \<Longrightarrow> service_map st' \<noteq> []"
    and "service_map st' = [] \<Longrightarrow>
           last_service_count st' = last_service_count st
           \<and> stable_frames st' = stable_frames st \<and> \<not> labelled st'"
    and "service_map st' \<noteq> [] \<Longrightarrow> length (service_map st') \<noteq> last_service_count st \<Longrightarrow>
           last_service_count st' = length (service_map st') \<and> stable_frames st' = 0"
    and "service_map st' \<noteq> [] \<Longrightarrow> length (service_map st') = last_service_count st \<Longrightarrow>
           last_service_count st' = last_service_count st
           \<and> stable_frames st' = stable_frames st + 1"
    and "labelled st' \<Longrightarrow>
           all_labelled st' \<and> ensemble_label st' \<noteq> [] \<and> 10 \<le> stable_frames st'"
proof -
  define st0 where "st0 = st\<lparr>eti_call_count := eti_call_count st + 1\<rparr>"
  define st1 where
    "st1 = process_fic (take (frame_fic_len frame) (drop (frame_stc_end frame) frame)) st0"
  define st3 where
    "st3 = basic_ready_check (if service_map st1 \<noteq> [] then build_ensemble st1 else st1)"
  have st': "st' = fst (completion_check st3)"
    by (simp add: st'_def process_eti_frame_unfold [OF nl ff] Let_def st0_def st1_def st3_def)
  have k: "fic_keeps st0 st1"
    unfolding st1_def by (rule process_fic_keeps)
  have f3: "service_map st3 = service_map st1" "service_labels st3 = service_labels st1"
    "ensemble_label st3 = ensemble_label st1" "last_service_count st3 = last_service_count st"
    "stable_frames st3 = stable_frames st" "\<not> labelled st3"
    using k nl
    by (simp_all add: st3_def st0_def basic_ready_check_fields build_ensemble_fields fic_keeps_def)
  note c = completion_check_step [OF f3(6)]
  have all: "all_labelled st' = all_labelled st3"
    by (simp add: all_labelled_def st' c(1,2))
  show "service_map st \<noteq> [] \<Longrightarrow> service_map st' \<noteq> []"
    using k by (simp add: st' c(1) f3(1) fic_keeps_def st0_def split: if_splits)
  show "service_map st' = [] \<Longrightarrow>
           last_service_count st' = last_service_count st
           \<and> stable_frames st' = stable_frames st \<and> \<not> labelled st'"
    using c(4) f3 by (simp add: st' c(1))
  show "service_map st' \<noteq> [] \<Longrightarrow> length (service_map st') \<noteq> last_service_count st \<Longrightarrow>
           last_service_count st' = length (service_map st') \<and> stable_frames st' = 0"
    using c(5) f3 by (simp add: st' c(1))
  show "service_map st' \<noteq> [] \<Longrightarrow> length (service_map st') = last_service_count st \<Longrightarrow>
           last_service_count st' = last_service_count st
           \<and> stable_frames st' = stable_frames st + 1"
    using c(6) f3 by (simp add: st' c(1))
  show "labelled st' \<Longrightarrow>
           all_labelled st' \<and> ensemble_label st' \<noteq> [] \<and> 10 \<le> stable_frames st'"
    using c(7) all by (simp add: st' c(3))
qed

section \<open>FIC parser: the stability window\<close>

lemma dab_run_snoc:
  "dab_run (frames @ [frame]) = fst (process_eti_frame (dab_run frames) frame)"
  by (simp add: dab_run_def run_steps_append split_beta Let_def)

lemma service_count_skipped:
  assumes "labelled (dab_run frames) \<or> \<not> fic_frame frame"
  shows "service_count (frames @ [frame]) = service_count frames"
  by (simp add: service_count_def dab_run_snoc process_eti_frame_skipped [OF assms])

lemma stable_window_iff:
  "stable_window frames n =
     (\<exists>k \<le> length frames. n \<le> length (filter fic_frame (drop k frames))
        \<and> (\<forall>j. k < j \<and> j \<le> length frames \<longrightarrow>
               service_count (take j frames) = service_count frames))"
  unfolding stable_window_def list_ex_iff list_all_iff set_upt Bex_def Ball_def
    atLeastLessThan_iff
  by (auto simp: less_Suc_eq_le Suc_le_eq)

lemma stable_window_new:
  assumes "fic_frame frame"
  shows "stable_window (frames @ [frame]) 1"
  unfolding stable_window_iff
  by (rule exI [of _ "length frames"]) (use assms in \<open>auto simp: le_Suc_eq\<close>)

lemma stable_window_more:
  assumes w: "stable_window frames n"
    and same: "service_count (frames @ [frame]) = service_count frames"
  shows "stable_window (frames @ [frame]) (if fic_frame frame then n + 1 else n)"
proof -
  obtain k where k: "k \<le> length frames" "n \<le> length (filter fic_frame (drop k frames))"
    and all: "\<And>j. k < j \<Longrightarrow> j \<le> length frames \<Longrightarrow>
                service_count (take j frames) = service_count frames"
    using w unfolding stable_window_iff by blast
  have "service_count (take j (frames @ [frame])) = service_count (frames @ [frame])"
    if "k < j" "j \<le> length (frames @ [frame])" for j
  proof (cases "j \<le> length frames")
    case True
    then show ?thesis using all [OF that(1)] same by simp
  next
    case False
    then have "j = Suc (length frames)" using that(2) by simp
    then show ?thesis by simp
  qed
  moreover have "(if fic_frame frame then n + 1 else n)
                   \<le> length (filter fic_frame (drop k (frames @ [frame])))"
    using k by simp
  ultimately show ?thesis
    unfolding stable_window_iff using k(1) by (intro exI [of _ k]) auto
qed

lemma stable_window_less: "stable_window frames n \<Longrightarrow> m \<le> n \<Longrightarrow> stable_window frames m"
  unfolding stable_window_iff by (meson le_trans)

text \<open>
  After any frames: the count recorded is the number of services, and while there are
  services the frames end in a stable window of \<open>stable_frames_ + 1\<close> FIC frames.
\<close>

lemma stable_frames_window:
  "last_service_count (dab_run frames) = service_count frames
   \<and> (service_count frames \<noteq> 0 \<longrightarrow>
        stable_window frames (stable_frames (dab_run frames) + 1))"
proof (induction frames rule: rev_induct)
  case Nil
  show ?case by (simp add: dab_run_def service_count_def DABParser_new_def)
next
  case (snoc frame frames)
  let ?st = "dab_run frames" and ?st' = "dab_run (frames @ [frame])"
  have last: "last_service_count ?st = service_count frames"
    and win: "service_count frames \<noteq> 0 \<Longrightarrow> stable_window frames (stable_frames ?st + 1)"
    using snoc by simp_all
  show ?case
  proof (cases "labelled ?st \<or> \<not> fic_frame frame")
    case True
    have same: "service_count (frames @ [frame]) = service_count frames"
      by (rule service_count_skipped [OF True])
    have st: "?st' = ?st\<lparr>eti_call_count := eti_call_count ?st + 1\<rparr>"
      by (simp add: dab_run_snoc process_eti_frame_skipped [OF True])
    have "stable_window (frames @ [frame]) (stable_frames ?st + 1)"
      if "service_count frames \<noteq> 0"
      using stable_window_more [OF win [OF that] same] stable_window_less by fastforce
    then show ?thesis using last same by (simp add: st)
  next
    case False
    then have nl: "\<not> labelled ?st" and ff: "fic_frame frame" by simp_all
    note s = process_eti_frame_fic [OF nl ff, folded dab_run_snoc]
    show ?thesis
    proof (cases "service_map ?st' = []")
      case True
      then show ?thesis using s(2) s(1) last by (auto simp: service_count_def)
    next
      case ne: False
      show ?thesis
      proof (cases "length (service_map ?st') = last_service_count ?st")
        case True
        then have same: "service_count (frames @ [frame]) = service_count frames"
          using last by (simp add: service_count_def)
        have "service_count (frames @ [frame]) \<noteq> 0"
          using ne by (simp add: service_count_def)
        then have "service_count frames \<noteq> 0"
          using same by simp
        from stable_window_more [OF win [OF this] same]
        show ?thesis using s(4) [OF ne True] ff same last by simp
      next
        case False
        show ?thesis
          using s(3) [OF ne False] stable_window_new [OF ff, of frames]
          by (simp add: service_count_def)
      qed
    qed
  qed
qed

section \<open>FIC parser: the test frames\<close>

lemma process_eti_frame_returns:
  assumes "\<not> labelled st"
  shows "snd (process_eti_frame st frame) = labelled (fst (process_eti_frame st frame))"
proof (cases "fic_frame frame")
  case True
  let ?st1 = "process_fic (take (frame_fic_len frame) (drop (frame_stc_end frame) frame))
                (st\<lparr>eti_call_count := eti_call_count st + 1\<rparr>)"
  have "fic_keeps (st\<lparr>eti_call_count := eti_call_count st + 1\<rparr>) ?st1"
    by (rule process_fic_keeps)
  then have "\<not> labelled (basic_ready_check (if service_map ?st1 \<noteq> [] then build_ensemble ?st1 else ?st1))"
    using assms by (simp add: basic_ready_check_fields build_ensemble_fields fic_keeps_def)
  then show ?thesis
    using completion_check_returns
    by (simp add: process_eti_frame_unfold [OF assms True] Let_def)
next
  case False
  let ?st0 = "st\<lparr>eti_call_count := eti_call_count st + 1\<rparr>"
  from False consider
      (short) "length frame < 8"
    | (sync) "frame_sync frame \<noteq> ETI_NI_FSYNC0" "frame_sync frame \<noteq> ETI_NI_FSYNC1"
    | (nofic) "fc_ficf frame = 0"
    | (cut) "frame_stc_end frame + frame_fic_len frame > length frame"
    unfolding fic_frame_def by fastforce
  then have "process_eti_frame st frame = (?st0, False)"
  proof cases
    case short
    then show ?thesis using assms by (simp add: process_eti_frame_def Let_def)
  next
    case sync
    then show ?thesis using assms by (simp add: process_eti_frame_def Let_def)
  next
    case nofic
    then show ?thesis using assms by (simp add: process_eti_frame_def Let_def)
  next
    case cut
    then show ?thesis using assms by (simp add: process_eti_frame_def Let_def)
  qed
  then show ?thesis using assms by simp
qed

lemmas fic_eval =
  process_fib_def fib_figs.simps process_fig_def process_fig_0_def process_fig_1_def
  fig_0_0_def fig_0_1.simps fig_0_1_entry_def fig_0_2.simps fig_0_2_service_def
  fig_0_2_sid_def fig_0_2_component_def fig_label_def trim_label_def be16_def be32w_def
  uep_bitrates_def Let_def

lemma test_fib_crcs:
  "fib_crc_ok fib_subch5" "fib_crc_ok fib_nosubch" "fib_crc_ok fib_moved"
  "fib_crc_ok fib_service_label" "fib_crc_ok fib_ensemble_label"
  by (simp_all add: fib_crc_ok_def crc16_def crc16_step_def crc16_table_def be16_def
      fib_subch5_def fib_nosubch_def fib_moved_def fib_service_label_def fib_ensemble_label_def)


lemmas frame_eval =
  fic_frame_def frame_sync_def ETI_NI_FSYNC0_def ETI_NI_FSYNC1_def fc_ficf_def fc_mid_def
  fc_nst_def fc_word_def frame_stc_end_def frame_fic_len_def be32w_def fic_frame_of_def

lemma test_frames_fic:
  "fic_frame frame_subch5" "fic_frame frame_nosubch" "fic_frame frame_moved"
  by (simp_all add: frame_eval frame_subch5_def frame_nosubch_def frame_moved_def
      fib_subch5_def fib_nosubch_def fib_moved_def fib_service_label_def fib_ensemble_label_def)

lemma test_frames_slice:
  "take (frame_fic_len frame_subch5) (drop (frame_stc_end frame_subch5) frame_subch5) =
     fib_subch5 @ fib_service_label @ fib_ensemble_label"
  "take (frame_fic_len frame_nosubch) (drop (frame_stc_end frame_nosubch) frame_nosubch) =
     fib_nosubch @ fib_service_label @ fib_ensemble_label"
  "take (frame_fic_len frame_moved) (drop (frame_stc_end frame_moved) frame_moved) =
     fib_moved @ fib_service_label @ fib_ensemble_label"
  by (simp_all add: frame_eval frame_subch5_def frame_nosubch_def frame_moved_def
      fib_subch5_def fib_nosubch_def fib_moved_def fib_service_label_def fib_ensemble_label_def)

lemma process_fic_three:
  assumes "length fib0 = 32" "length fib1 = 32" "length fib2 = 32"
  shows "process_fic (fib0 @ fib1 @ fib2) st =
           process_fib fib2 (process_fib fib1 (process_fib fib0 st))"
  using assms
  by (simp add: process_fic.simps [of "fib0 @ fib1 @ fib2"] process_fic.simps [of "fib1 @ fib2"]
      process_fic.simps [of fib2] process_fic.simps [of "[]"])

lemma test_fib_lengths:
  "length fib_subch5 = 32" "length fib_nosubch = 32" "length fib_moved = 32"
  "length fib_service_label = 32" "length fib_ensemble_label = 32"
  by (simp_all add: fib_subch5_def fib_nosubch_def fib_moved_def fib_service_label_def
      fib_ensemble_label_def)

text \<open>What the test FIBs do to the tables, whatever the other members hold.\<close>

lemma fib_subch5_tables:
  assumes "dab_subchannels st = [] \<or> dab_subchannels st = [(5, subchannel5)]"
    and "service_map st = [] \<or> service_map st = [(0x1234, service_1234)]"
  shows "process_fib fib_subch5 st =
           st\<lparr>dab_subchannels := [(5, subchannel5)], service_map := [(0x1234, service_1234)]\<rparr>"
  using assms
  by (simp only: process_fib_def test_fib_crcs if_True)
     (auto simp: fic_eval fib_subch5_def subchannel5_def service_1234_def)

lemma fib_nosubch_tables:
  assumes "dab_subchannels st = []"
    and "service_map st = [] \<or> service_map st = [(0x1234, service_1234)]"
  shows "process_fib fib_nosubch st = st\<lparr>service_map := [(0x1234, service_1234)]\<rparr>"
  using assms
  by (simp only: process_fib_def test_fib_crcs if_True)
     (auto simp: fic_eval fib_nosubch_def service_1234_def)

lemma fib_service_label_tables:
  assumes "service_labels st = [] \<or> service_labels st = [(0x1234, label_radio)]"
  shows "process_fib fib_service_label st = st\<lparr>service_labels := [(0x1234, label_radio)]\<rparr>"
  using assms
  by (simp only: process_fib_def test_fib_crcs if_True)
     (auto simp: fic_eval fib_service_label_def label_radio_def)

lemma fib_ensemble_label_tables:
  "process_fib fib_ensemble_label st = st\<lparr>ensemble_id := 0x4001, ensemble_label := label_mux\<rparr>"
  by (simp only: process_fib_def test_fib_crcs if_True)
     (simp add: fic_eval fib_ensemble_label_def label_mux_def)

text \<open>The FIC of the test frames, whatever the parser holds beside the tables.\<close>

lemma frame_subch5_fic:
  assumes "dab_subchannels st = [] \<or> dab_subchannels st = [(5, subchannel5)]"
    and "service_map st = [] \<or> service_map st = [(0x1234, service_1234)]"
    and "service_labels st = [] \<or> service_labels st = [(0x1234, label_radio)]"
  shows "process_fic (take (frame_fic_len frame_subch5) (drop (frame_stc_end frame_subch5) frame_subch5)) st =
           st\<lparr>dab_subchannels := [(5, subchannel5)], service_map := [(0x1234, service_1234)],
              service_labels := [(0x1234, label_radio)], ensemble_id := 0x4001,
              ensemble_label := label_mux\<rparr>"
proof -
  let ?st1 = "st\<lparr>dab_subchannels := [(5, subchannel5)], service_map := [(0x1234, service_1234)]\<rparr>"
  have a: "process_fib fib_subch5 st = ?st1"
    using assms(1,2) by (rule fib_subch5_tables)
  have b: "process_fib fib_service_label ?st1 = ?st1\<lparr>service_labels := [(0x1234, label_radio)]\<rparr>"
    by (rule fib_service_label_tables) (simp add: assms(3))
  show ?thesis
    unfolding test_frames_slice process_fic_three [OF test_fib_lengths(1,4,5)] a b
      fib_ensemble_label_tables
    by simp
qed

lemma frame_nosubch_fic:
  assumes "dab_subchannels st = []"
    and "service_map st = [] \<or> service_map st = [(0x1234, service_1234)]"
    and "service_labels st = [] \<or> service_labels st = [(0x1234, label_radio)]"
  shows "process_fic (take (frame_fic_len frame_nosubch) (drop (frame_stc_end frame_nosubch) frame_nosubch)) st =
           st\<lparr>service_map := [(0x1234, service_1234)],
              service_labels := [(0x1234, label_radio)], ensemble_id := 0x4001,
              ensemble_label := label_mux\<rparr>"
proof -
  let ?st1 = "st\<lparr>service_map := [(0x1234, service_1234)]\<rparr>"
  have a: "process_fib fib_nosubch st = ?st1"
    using assms(1,2) by (rule fib_nosubch_tables)
  have b: "process_fib fib_service_label ?st1 = ?st1\<lparr>service_labels := [(0x1234, label_radio)]\<rparr>"
    by (rule fib_service_label_tables) (simp add: assms(3))
  show ?thesis
    unfolding test_frames_slice process_fic_three [OF test_fib_lengths(2,4,5)] a b
      fib_ensemble_label_tables
    by simp
qed

text \<open>The detectors on the test frames, frame after frame.\<close>

lemmas detector_eval =
  build_ensemble_def build_service_def basic_ready_check_def valid_services_def
  completion_check_def labelled_count_def Let_def

lemma frame_subch5_first:
  "process_eti_frame DABParser_new frame_subch5 = (after_subch5 1, False)"
proof -
  let ?st0 = "DABParser_new\<lparr>eti_call_count := eti_call_count DABParser_new + 1\<rparr>"
  have nl: "\<not> labelled DABParser_new" by (simp add: DABParser_new_def)
  have fic: "process_fic (take (frame_fic_len frame_subch5) (drop (frame_stc_end frame_subch5) frame_subch5)) ?st0 =
      ?st0\<lparr>dab_subchannels := [(5, subchannel5)], service_map := [(0x1234, service_1234)],
              service_labels := [(0x1234, label_radio)], ensemble_id := 0x4001,
              ensemble_label := label_mux\<rparr>"
    by (rule frame_subch5_fic) (simp_all add: DABParser_new_def)
  show ?thesis
    unfolding process_eti_frame_unfold [OF nl test_frames_fic(1)] fic
    by (simp add: DABParser_new_def detector_eval after_subch5_def ensemble_subch5_def
        subchannel5_def service_1234_def DABEnsemble_new_def)
qed

lemma frame_subch5_next:
  assumes "1 \<le> k"
  shows "process_eti_frame (after_subch5 k) frame_subch5 = (after_subch5 (Suc k), 10 \<le> k)"
proof (cases "11 \<le> k")
  case True
  then have "labelled (after_subch5 k)" by (simp add: after_subch5_def)
  then have "process_eti_frame (after_subch5 k) frame_subch5 =
      ((after_subch5 k)\<lparr>eti_call_count := eti_call_count (after_subch5 k) + 1\<rparr>, True)"
    by (simp add: process_eti_frame_def Let_def)
  then show ?thesis using True by (simp add: after_subch5_def)
next
  case False
  define R where "R l br bs sf n =
     \<lparr>dab_subchannels = [(5, subchannel5)], service_map = [(0x1234, service_1234)],
      service_labels = [(0x1234, label_radio)], ensemble_label = label_mux,
      ensemble_id = 0x4001, labelled = l, basic_ready = br,
      ensemble = ensemble_subch5, last_basic_service_count = 1,
      basic_stable_frames = bs, last_service_count = 1,
      stable_frames = sf, eti_call_count = n\<rparr>" for l br bs sf n
  have start: "after_subch5 k = R False (4 \<le> k) (min (k - 1) 3) (min (k - 1) 10) (int k)"
    using False by (simp add: after_subch5_def R_def)
  have finish: "after_subch5 (Suc k) = R (10 \<le> k) (3 \<le> k) (min k 3) (min k 10) (int k + 1)"
    using False by (simp add: after_subch5_def R_def)
  let ?st0 = "(R False (4 \<le> k) (min (k - 1) 3) (min (k - 1) 10) (int k))\<lparr>eti_call_count := int k + 1\<rparr>"
  have nl: "\<not> labelled (after_subch5 k)" by (simp add: start R_def)
  have cnt: "eti_call_count (after_subch5 k) = int k" by (simp add: start R_def)
  have fic: "process_fic (take (frame_fic_len frame_subch5) (drop (frame_stc_end frame_subch5) frame_subch5)) ?st0 =
      ?st0\<lparr>dab_subchannels := [(5, subchannel5)], service_map := [(0x1234, service_1234)],
              service_labels := [(0x1234, label_radio)], ensemble_id := 0x4001,
              ensemble_label := label_mux\<rparr>"
    by (rule frame_subch5_fic) (simp_all add: R_def)
  have fic': "process_fic (take (frame_fic_len frame_subch5) (drop (frame_stc_end frame_subch5) frame_subch5)) ?st0 =
      R False (4 \<le> k) (min (k - 1) 3) (min (k - 1) 10) (int k + 1)"
    unfolding fic by (simp add: R_def)
  have sm: "service_map (R l br bs sf n) \<noteq> []" for l br bs sf n by (simp add: R_def)
  have build: "build_ensemble (R l br bs sf n) = R l br bs sf n" for l br bs sf n
    by (simp add: R_def build_ensemble_def build_service_def ensemble_subch5_def subchannel5_def
        service_1234_def)
  have valid: "valid_services (R l br bs sf n) = 1" for l br bs sf n
    by (simp add: R_def valid_services_def service_1234_def)
  have basic: "basic_ready_check (R l br bs sf n) =
      (if br then R l br bs sf n else R l (2 \<le> bs) (bs + 1) sf n)" for l br bs sf n
    unfolding basic_ready_check_def valid sm by (simp add: R_def Let_def)
  have lab: "labelled_count (R l br bs sf n) = 1" for l br bs sf n
    by (simp add: R_def labelled_count_def)
  have compl: "completion_check (R False br bs sf n) = (R (9 \<le> sf) br bs (sf + 1) n, 9 \<le> sf)"
    for br bs sf n
    unfolding completion_check_def lab by (simp add: R_def Let_def label_mux_def)
  have arith: "(if 4 \<le> k then R False (4 \<le> k) (min (k - 1) 3) (min (k - 1) 10) (int k + 1)
                else R False (2 \<le> min (k - 1) 3) (min (k - 1) 3 + 1) (min (k - 1) 10) (int k + 1))
               = R False (3 \<le> k) (min k 3) (min (k - 1) 10) (int k + 1)"
  proof (cases "4 \<le> k")
    case True
    then have "min (k - 1) 3 = min k 3" "3 \<le> k" by arith+
    with True show ?thesis by simp
  next
    case False
    with assms have "(2 \<le> min (k - 1) 3) = (3 \<le> k)" "min (k - 1) 3 + 1 = min k 3" by arith+
    with False show ?thesis by simp
  qed
  have a2: "(9 \<le> min (k - 1) 10) = (10 \<le> k)" "min (k - 1) 10 + 1 = min k 10"
    using assms False by arith+
  have s1: "(after_subch5 k)\<lparr>eti_call_count := eti_call_count (after_subch5 k) + 1\<rparr> = ?st0"
    by (simp add: start R_def)
  have step: "process_eti_frame (after_subch5 k) frame_subch5 =
      completion_check (basic_ready_check (build_ensemble
        (R False (4 \<le> k) (min (k - 1) 3) (min (k - 1) 10) (int k + 1))))"
    unfolding process_eti_frame_unfold [OF nl test_frames_fic(1)] s1 fic' Let_def
    using sm by simp
  show ?thesis
    unfolding step build basic arith compl a2 finish by simp
qed

lemma dab_run_subch5:
  "dab_run (replicate (Suc k) frame_subch5) = after_subch5 (Suc k)"
proof (induction k)
  case 0
  show ?case by (simp add: dab_run_def frame_subch5_first)
next
  case (Suc k)
  have "replicate (Suc (Suc k)) frame_subch5 = replicate (Suc k) frame_subch5 @ [frame_subch5]"
    by (simp add: replicate_append_same)
  then show ?case
    using Suc frame_subch5_next [of "Suc k"] by (simp only: dab_run_snoc) simp
qed

lemma frame_nosubch_first:
  "process_eti_frame DABParser_new frame_nosubch = (after_nosubch 1, False)"
proof -
  let ?st0 = "DABParser_new\<lparr>eti_call_count := eti_call_count DABParser_new + 1\<rparr>"
  have nl: "\<not> labelled DABParser_new" by (simp add: DABParser_new_def)
  have fic: "process_fic (take (frame_fic_len frame_nosubch) (drop (frame_stc_end frame_nosubch) frame_nosubch)) ?st0 =
      ?st0\<lparr>service_map := [(0x1234, service_1234)],
              service_labels := [(0x1234, label_radio)], ensemble_id := 0x4001,
              ensemble_label := label_mux\<rparr>"
    by (rule frame_nosubch_fic) (simp_all add: DABParser_new_def)
  show ?thesis
    unfolding process_eti_frame_unfold [OF nl test_frames_fic(2)] fic
    by (simp add: DABParser_new_def detector_eval after_nosubch_def ensemble_nosubch_def
        service_1234_def DABEnsemble_new_def)
qed

lemma frame_nosubch_next:
  assumes "1 \<le> k"
  shows "process_eti_frame (after_nosubch k) frame_nosubch = (after_nosubch (Suc k), 10 \<le> k)"
proof (cases "11 \<le> k")
  case True
  then have "labelled (after_nosubch k)" by (simp add: after_nosubch_def)
  then have "process_eti_frame (after_nosubch k) frame_nosubch =
      ((after_nosubch k)\<lparr>eti_call_count := eti_call_count (after_nosubch k) + 1\<rparr>, True)"
    by (simp add: process_eti_frame_def Let_def)
  then show ?thesis using True by (simp add: after_nosubch_def)
next
  case False
  define R where "R l sf n =
     \<lparr>dab_subchannels = [], service_map = [(0x1234, service_1234)],
      service_labels = [(0x1234, label_radio)], ensemble_label = label_mux,
      ensemble_id = 0x4001, labelled = l, basic_ready = False,
      ensemble = ensemble_nosubch, last_basic_service_count = 0,
      basic_stable_frames = 0, last_service_count = 1,
      stable_frames = sf, eti_call_count = n\<rparr>" for l sf n
  have start: "after_nosubch k = R False (min (k - 1) 10) (int k)"
    using False by (simp add: after_nosubch_def R_def)
  have finish: "after_nosubch (Suc k) = R (10 \<le> k) (min k 10) (int k + 1)"
    using False by (simp add: after_nosubch_def R_def)
  let ?st0 = "(R False (min (k - 1) 10) (int k))\<lparr>eti_call_count := int k + 1\<rparr>"
  have nl: "\<not> labelled (after_nosubch k)" by (simp add: start R_def)
  have fic: "process_fic (take (frame_fic_len frame_nosubch) (drop (frame_stc_end frame_nosubch) frame_nosubch)) ?st0 =
      ?st0\<lparr>service_map := [(0x1234, service_1234)],
              service_labels := [(0x1234, label_radio)], ensemble_id := 0x4001,
              ensemble_label := label_mux\<rparr>"
    by (rule frame_nosubch_fic) (simp_all add: R_def)
  have fic': "process_fic (take (frame_fic_len frame_nosubch) (drop (frame_stc_end frame_nosubch) frame_nosubch)) ?st0 =
      R False (min (k - 1) 10) (int k + 1)"
    unfolding fic by (simp add: R_def)
  have sm: "service_map (R l sf n) \<noteq> []" for l sf n by (simp add: R_def)
  have build: "build_ensemble (R l sf n) = R l sf n" for l sf n
    by (simp add: R_def build_ensemble_def build_service_def ensemble_nosubch_def service_1234_def)
  have valid: "valid_services (R l sf n) = 0" for l sf n
    by (simp add: R_def valid_services_def service_1234_def)
  have basic: "basic_ready_check (R l sf n) = R l sf n" for l sf n
    unfolding basic_ready_check_def valid by simp
  have lab: "labelled_count (R l sf n) = 1" for l sf n
    by (simp add: R_def labelled_count_def)
  have compl: "completion_check (R False sf n) = (R (9 \<le> sf) (sf + 1) n, 9 \<le> sf)" for sf n
    unfolding completion_check_def lab by (simp add: R_def Let_def label_mux_def)
  have a2: "(9 \<le> min (k - 1) 10) = (10 \<le> k)" "min (k - 1) 10 + 1 = min k 10"
    using assms False by arith+
  have s1: "(after_nosubch k)\<lparr>eti_call_count := eti_call_count (after_nosubch k) + 1\<rparr> = ?st0"
    by (simp add: start R_def)
  have step: "process_eti_frame (after_nosubch k) frame_nosubch =
      completion_check (basic_ready_check (build_ensemble (R False (min (k - 1) 10) (int k + 1))))"
    unfolding process_eti_frame_unfold [OF nl test_frames_fic(2)] s1 fic' Let_def
    using sm by simp
  show ?thesis
    unfolding step build basic compl a2 finish by simp
qed

lemma dab_run_nosubch:
  "dab_run (replicate (Suc k) frame_nosubch) = after_nosubch (Suc k)"
proof (induction k)
  case 0
  show ?case by (simp add: dab_run_def frame_nosubch_first)
next
  case (Suc k)
  have "replicate (Suc (Suc k)) frame_nosubch = replicate (Suc k) frame_nosubch @ [frame_nosubch]"
    by (simp add: replicate_append_same)
  then show ?case
    using Suc frame_nosubch_next [of "Suc k"] by (simp only: dab_run_snoc) simp
qed

section \<open>FIC parser: completion\<close>

text \<open>The call returns true exactly when the parser is complete after it.\<close>

lemma process_eti_frame_snd:
  "snd (process_eti_frame st frame) = labelled (fst (process_eti_frame st frame))"
proof (cases "labelled st")
  case True
  then show ?thesis by (simp add: process_eti_frame_def Let_def)
next
  case False
  then show ?thesis by (rule process_eti_frame_returns)
qed

text \<open>
  A complete parser has services, a label for each of them and for the ensemble, and a
  counter of stable frames of 10 at least: the completion check sets the flag under
  these conditions only, and nothing changes once the flag is set.
\<close>

lemma labelled_run:
  assumes "labelled (dab_run frames)"
  shows "service_map (dab_run frames) \<noteq> [] \<and> all_labelled (dab_run frames)
         \<and> ensemble_label (dab_run frames) \<noteq> [] \<and> 10 \<le> stable_frames (dab_run frames)"
  using assms
proof (induction frames rule: rev_induct)
  case Nil
  then show ?case by (simp add: dab_run_def DABParser_new_def)
next
  case (snoc frame frames)
  let ?st = "dab_run frames"
  show ?case
  proof (cases "labelled ?st \<or> \<not> fic_frame frame")
    case True
    have eq: "dab_run (frames @ [frame]) = ?st\<lparr>eti_call_count := eti_call_count ?st + 1\<rparr>"
      unfolding dab_run_snoc by (rule process_eti_frame_skipped [OF True])
    with snoc.prems have "labelled ?st" by simp
    with snoc.IH show ?thesis by (simp add: eq all_labelled_def)
  next
    case False
    then have nl: "\<not> labelled ?st" and ff: "fic_frame frame" by simp_all
    from snoc.prems have l: "labelled (fst (process_eti_frame ?st frame))"
      by (simp add: dab_run_snoc)
    from process_eti_frame_fic(2) [OF nl ff] l
    have "service_map (fst (process_eti_frame ?st frame)) \<noteq> []" by blast
    with process_eti_frame_fic(5) [OF nl ff l] show ?thesis by (simp add: dab_run_snoc)
  qed
qed

text \<open>The last \<open>n\<close> frames of a stable window of \<open>n\<close> FIC frames end with the same count.\<close>

lemma stable_window_last:
  assumes "stable_window frames n"
  shows "n \<le> length frames
         \<and> list_all (\<lambda>j. service_count (take j frames) = service_count frames)
              [Suc (length frames - n)..<Suc (length frames)]"
proof -
  obtain k where k: "k \<le> length frames" "n \<le> length (filter fic_frame (drop k frames))"
    and all: "\<And>j. k < j \<Longrightarrow> j \<le> length frames \<Longrightarrow>
                service_count (take j frames) = service_count frames"
    using assms unfolding stable_window_iff by blast
  have "length (filter fic_frame (drop k frames)) \<le> length frames - k"
    using length_filter_le [of fic_frame "drop k frames"] by simp
  with k have n: "n \<le> length frames - k" by simp
  then have "n \<le> length frames" by simp
  moreover have "service_count (take j frames) = service_count frames"
    if "Suc (length frames - n) \<le> j" "j < Suc (length frames)" for j
    using that n k(1) by (intro all) arith+
  ultimately show ?thesis by (auto simp: list_all_iff simp del: upt_Suc)
qed

text \<open>
  C3. When the call of \<open>process_eti_frame\<close> on a frame returns true, after any frames
  fed to the parser since its construction, then every service of the service map has a
  label, the ensemble label is present, and the frames fed so far end in a window of at
  least 11 frames that reached the FIC, at the end of each of which the number of
  services was the number it is now: the count was unchanged by 10 consecutive processed
  frames at least. In particular the count is the same after each of the last 11 frames,
  so that the call does not return true on a frame that changes the count, nor on any of
  the 9 frames after it.
\<close>

theorem complete_only_when_labelled_and_stable:
  assumes "snd (process_eti_frame (dab_run frames) frame)"
  shows "all_labelled (dab_run (frames @ [frame]))
         \<and> service_map (dab_run (frames @ [frame])) \<noteq> []
         \<and> ensemble_label (dab_run (frames @ [frame])) \<noteq> []
         \<and> stable_window (frames @ [frame]) 11
         \<and> 11 \<le> length (frames @ [frame])
         \<and> list_all (\<lambda>j. service_count (take j (frames @ [frame])) = service_count (frames @ [frame]))
              [Suc (length (frames @ [frame]) - 11)..<Suc (length (frames @ [frame]))]
         \<and> service_count (frames @ [frame]) = service_count frames"
proof -
  let ?fs = "frames @ [frame]"
  from assms have l: "labelled (dab_run ?fs)"
    by (simp add: process_eti_frame_snd dab_run_snoc)
  note inv = labelled_run [OF l]
  from inv have "service_count ?fs \<noteq> 0" by (simp add: service_count_def)
  with stable_frames_window [of ?fs]
  have "stable_window ?fs (stable_frames (dab_run ?fs) + 1)" by simp
  then have w: "stable_window ?fs 11"
    by (rule stable_window_less) (use inv in simp)
  note last = stable_window_last [OF w]
  from last have "11 \<le> length ?fs" by simp
  then have mem: "length frames \<in> set [Suc (length ?fs - 11)..<Suc (length ?fs)]"
    unfolding set_upt by simp
  have "service_count (take (length frames) ?fs) = service_count ?fs"
    using bspec [OF list_all_iff [THEN iffD1, OF conjunct2 [OF last]] mem] .
  then have "service_count ?fs = service_count frames" by simp
  with inv w last show ?thesis by simp
qed

theorem complete_only_when_labelled_and_stable_witness:
  "snd (process_eti_frame (dab_run (replicate 10 frame_subch5)) frame_subch5)
   \<and> \<not> snd (process_eti_frame (dab_run (replicate 9 frame_subch5)) frame_subch5)
   \<and> all_labelled (dab_run (replicate 10 frame_subch5 @ [frame_subch5]))
   \<and> ensemble_label (dab_run (replicate 10 frame_subch5 @ [frame_subch5])) = label_mux
   \<and> stable_window (replicate 10 frame_subch5 @ [frame_subch5]) 11
   \<and> service_count (replicate 10 frame_subch5 @ [frame_subch5]) = 1"
proof -
  have r10: "dab_run (replicate 10 frame_subch5) = after_subch5 10"
    using dab_run_subch5 [of 9] by simp
  have r9: "dab_run (replicate 9 frame_subch5) = after_subch5 9"
    using dab_run_subch5 [of 8] by simp
  have r11: "dab_run (replicate 10 frame_subch5 @ [frame_subch5]) = after_subch5 11"
    unfolding replicate_append_same replicate_Suc [symmetric]
    using dab_run_subch5 [of 10] by simp
  have t: "snd (process_eti_frame (dab_run (replicate 10 frame_subch5)) frame_subch5)"
    unfolding r10 by (simp add: frame_subch5_next)
  have f: "\<not> snd (process_eti_frame (dab_run (replicate 9 frame_subch5)) frame_subch5)"
    unfolding r9 by (simp add: frame_subch5_next)
  have e: "ensemble_label (after_subch5 11) = label_mux" "length (service_map (after_subch5 11)) = 1"
    by (simp_all add: after_subch5_def)
  from complete_only_when_labelled_and_stable [OF t] t f e show ?thesis
    by (simp add: r11 service_count_def)
qed

section \<open>FIC parser: services of a complete ensemble\<close>

text \<open>
  C5. A stream whose FIC declares service 0x1234 on sub-channel 5 (FIG 0/2), labels the
  service and the ensemble (FIG 1/1, FIG 1/0), and never describes sub-channel 5
  (no FIG 0/1): the 11th call of \<open>process_eti_frame\<close> returns true, the parser is
  complete with no sub-channel at all, and the ensemble built by \<open>build_ensemble\<close>
  lists the service, whose \<open>subchannel_id\<close> and the fields beside it were never written.
  The basic-ready detector, which counts the services whose sub-channel is known,
  never fired.
\<close>

theorem complete_ensemble_lists_service_without_subchannel:
  "snd (process_eti_frame (dab_run (replicate 10 frame_nosubch)) frame_nosubch)
   \<and> labelled (dab_run (replicate 11 frame_nosubch))
   \<and> dab_subchannels (dab_run (replicate 11 frame_nosubch)) = []
   \<and> map (\<lambda>e. (fst e, primary_subch (snd e))) (service_map (dab_run (replicate 11 frame_nosubch)))
       = [(0x1234, 5)]
   \<and> map sid (services (ensemble (dab_run (replicate 11 frame_nosubch)))) = [0x1234]
   \<and> map subchannel_id (services (ensemble (dab_run (replicate 11 frame_nosubch)))) = [None]
   \<and> map bitrate (services (ensemble (dab_run (replicate 11 frame_nosubch)))) = [None]
   \<and> valid_services (dab_run (replicate 11 frame_nosubch)) = 0
   \<and> \<not> basic_ready (dab_run (replicate 11 frame_nosubch))"
proof -
  have r10: "dab_run (replicate 10 frame_nosubch) = after_nosubch 10"
    using dab_run_nosubch [of 9] by simp
  have r11: "dab_run (replicate 11 frame_nosubch) = after_nosubch 11"
    using dab_run_nosubch [of 10] by simp
  have t: "snd (process_eti_frame (dab_run (replicate 10 frame_nosubch)) frame_nosubch)"
    unfolding r10 by (simp add: frame_nosubch_next)
  then show ?thesis
    unfolding r11
    by (simp add: after_nosubch_def ensemble_nosubch_def service_1234_def valid_services_def)
qed

section \<open>Ensemble manager: the watch for sub-channel changes\<close>

lemma fill_subchannel_map_sorted:
  "map_sorted m \<Longrightarrow> map_sorted (fill_subchannel_map m svcs)"
  unfolding fill_subchannel_map_def
  by (induction svcs arbitrary: m) (simp_all add: map_sorted_put)

lemma changed_services_same:
  assumes "distinct (map fst m)"
  shows "changed_services m m = []"
proof -
  have "map_find m (fst e) = Some (snd e)" if "e \<in> set m" for e
    using map_find_distinct [OF assms, of "fst e" "snd e"] that by simp
  then show ?thesis by (simp add: changed_services_def)
qed

lemma removed_services_same: "removed_services m m = []"
proof -
  have "map_find m (fst e) \<noteq> None" if "e \<in> set m" for e
    using that by (simp add: map_find_None_iff)
  then show ?thesis by (auto simp: removed_services_def split: option.splits)
qed

lemma watch_subchannels_same:
  assumes "last_subchannel_map m key = fill_subchannel_map [] (services (ensemble p))"
  shows "watch_subchannels key p m = (m, [])"
proof -
  have "map_sorted (fill_subchannel_map [] (services (ensemble p)))"
    by (rule fill_subchannel_map_sorted) (simp add: map_sorted_def)
  then have "distinct (map fst (fill_subchannel_map [] (services (ensemble p))))"
    by (rule map_sorted_distinct)
  then show ?thesis
    by (simp add: watch_subchannels_def Let_def assms changed_services_same removed_services_same)
qed

text \<open>A complete parser only counts the call.\<close>

lemma process_eti_frame_complete:
  assumes "labelled st"
  shows "process_eti_frame st frame = (st\<lparr>eti_call_count := eti_call_count st + 1\<rparr>, True)"
  using assms by (simp add: process_eti_frame_def Let_def)

text \<open>One call of \<open>processUdp\<close> keeps what is tracked and reports no change.\<close>

lemma processUdp_tracked:
  assumes "\<And>key. udp_tracked m key"
  shows "udp_tracked (fst (processUdp m x)) key'"
    and "filter is_change (snd (processUdp m x)) = []"
proof -
  obtain key y where x: "x = (key, y)" by (cases x)
  define m0 where "m0 = getParser key m"
  define p0 where "p0 = parser_of (parsers m0 key)"
  define p where "p = (case y of None \<Rightarrow> p0 | Some eti \<Rightarrow> fst (process_eti_frame p0 (fst eti)))"
  define ev0 where "ev0 = (case y of None \<Rightarrow> []
     | Some eti \<Rightarrow> if eti_callback m0 then [EtiFrame key (fst eti) (snd eti)] else [])"
  define m1 where "m1 = m0\<lparr>parsers := (parsers m0)(key := Some p)\<rparr>"
  define r2 where "r2 = notify_basic_ready key p m1"
  define r3 where "r3 = udp_notify_complete key p (fst r2)"
  define r4 where "r4 = watch_subchannels key p (fst r3)"
  have res: "processUdp m x = (fst r4, ev0 @ snd r2 @ snd r3 @ snd r4)"
    unfolding r4_def r3_def r2_def m1_def ev0_def p_def p0_def m0_def
    by (simp add: processUdp_def x Let_def)
  have t0: "udp_tracked m0 k" for k
    using assms [of k] assms [of key]
    by (auto simp: m0_def getParser_def udp_tracked_def split: option.splits if_splits)
  have some0: "parsers m0 key = Some p0"
    by (auto simp: p0_def m0_def getParser_def parser_of_def split: option.splits)
  have e0: "filter is_change ev0 = []"
    by (simp add: ev0_def split: option.splits)
  have e2: "filter is_change (snd r2) = []"
    by (simp add: r2_def notify_basic_ready_def)
  have e3: "filter is_change (snd r3) = []"
    by (simp add: r3_def udp_notify_complete_def)
  have f2: "parsers (fst r2) = parsers m1" "complete_flags (fst r2) = complete_flags m1"
    "last_subchannel_map (fst r2) = last_subchannel_map m1"
    by (simp_all add: r2_def notify_basic_ready_def)
  have f1: "parsers m1 = (parsers m0)(key := Some p)" "complete_flags m1 = complete_flags m0"
    "last_subchannel_map m1 = last_subchannel_map m0"
    by (simp_all add: m1_def)
  have kept: "labelled p \<and> ensemble p = ensemble p0" if "complete_flags m0 key"
  proof -
    from t0 [of key] that some0 have "labelled p0" by (simp add: udp_tracked_def)
    then show ?thesis
      by (cases y) (simp_all add: p_def process_eti_frame_complete)
  qed
  have f3: "parsers (fst r3) k = (if k = key then Some p else parsers m0 k)"
    "complete_flags (fst r3) k =
       (if k = key \<and> labelled p \<and> \<not> complete_flags m0 key then True else complete_flags m0 k)"
    "last_subchannel_map (fst r3) k =
       (if k = key \<and> labelled p \<and> \<not> complete_flags m0 key
        then fill_subchannel_map (last_subchannel_map m0 key) (services (ensemble p))
        else last_subchannel_map m0 k)" for k
    by (simp_all add: r3_def udp_notify_complete_def f1 f2)
  have t3: "udp_tracked (fst r3) k" for k
  proof (cases "k = key")
    case False
    with t0 [of k] show ?thesis
      unfolding udp_tracked_def f3 by simp
  next
    case True
    show ?thesis
    proof (cases "complete_flags m0 key")
      case c: True
      with t0 [of key] some0 kept show ?thesis
        unfolding True udp_tracked_def f3 by simp
    next
      case c: False
      with t0 [of key] show ?thesis
        unfolding True udp_tracked_def f3 by simp
    qed
  qed
  have w: "r4 = (fst r3, [])"
  proof (cases "complete_flags (fst r3) key")
    case True
    have "parsers (fst r3) key = Some p"
      by (simp add: f3)
    with t3 [of key] True
    have "last_subchannel_map (fst r3) key = fill_subchannel_map [] (services (ensemble p))"
      by (simp add: udp_tracked_def)
    then show ?thesis unfolding r4_def by (rule watch_subchannels_same)
  next
    case False
    then show ?thesis by (simp add: r4_def watch_subchannels_def)
  qed
  show "udp_tracked (fst (processUdp m x)) key'"
    using t3 [of key'] by (simp add: res w)
  show "filter is_change (snd (processUdp m x)) = []"
    by (simp add: res w e0 e2 e3)
qed

lemma run_processUdp_tracked:
  assumes "\<And>key. udp_tracked m key"
  shows "filter is_change (concat (snd (run_steps processUdp m xs))) = []"
  using assms
proof (induction xs arbitrary: m)
  case Nil
  show ?case by simp
next
  case (Cons x xs)
  have "filter is_change (concat (snd (run_steps processUdp (fst (processUdp m x)) xs))) = []"
    by (rule Cons.IH) (rule processUdp_tracked(1) [OF Cons.prems])
  with processUdp_tracked(2) [OF Cons.prems, of x] show ?case
    by (simp add: split_beta Let_def)
qed

lemma EnsembleManager_new_tracked:
  "udp_tracked (EnsembleManager_new on_basic on_complete on_eti on_change) key"
  by (simp add: udp_tracked_def EnsembleManager_new_def)

text \<open>A parser that starts on \<open>frame_moved\<close> reports both services on sub-channel 6.\<close>

lemma fib_moved_tables:
  assumes "dab_subchannels st = []" and "service_map st = []"
  shows "process_fib fib_moved st =
           st\<lparr>dab_subchannels := [(6, subchannel6)], service_map := services_moved\<rparr>"
  using assms
  by (simp only: process_fib_def test_fib_crcs if_True)
     (auto simp: fic_eval fib_moved_def subchannel6_def services_moved_def)

lemma frame_moved_first:
  "map (\<lambda>s. (sid s, subchannel_id s)) (services (ensemble (dab_run [frame_moved]))) =
     [(0x1234, Some 6), (0x5678, Some 6)]"
proof -
  let ?st0 = "DABParser_new\<lparr>eti_call_count := eti_call_count DABParser_new + 1\<rparr>"
  let ?st1 = "?st0\<lparr>dab_subchannels := [(6, subchannel6)], service_map := services_moved\<rparr>"
  have nl: "\<not> labelled DABParser_new" by (simp add: DABParser_new_def)
  have a: "process_fib fib_moved ?st0 = ?st1"
    by (rule fib_moved_tables) (simp_all add: DABParser_new_def)
  have b: "process_fib fib_service_label ?st1 = ?st1\<lparr>service_labels := [(0x1234, label_radio)]\<rparr>"
    by (rule fib_service_label_tables) (simp add: DABParser_new_def)
  have fic: "process_fic (take (frame_fic_len frame_moved) (drop (frame_stc_end frame_moved) frame_moved)) ?st0 =
      ?st1\<lparr>service_labels := [(0x1234, label_radio)], ensemble_id := 0x4001,
            ensemble_label := label_mux\<rparr>"
    unfolding test_frames_slice process_fic_three [OF test_fib_lengths(3,4,5)] a b
      fib_ensemble_label_tables
    by simp
  have "dab_run [frame_moved] = fst (process_eti_frame DABParser_new frame_moved)"
    by (simp add: dab_run_def split_beta)
  then show ?thesis
    unfolding process_eti_frame_unfold [OF nl test_frames_fic(3)] fic
    by (simp add: DABParser_new_def detector_eval subchannel6_def services_moved_def
        DABEnsemble_new_def)
qed

text \<open>Once complete, a parser changes by its call counter only, whatever it is fed.\<close>

lemma dab_run_complete_append:
  assumes "labelled (dab_run frames)"
  shows "dab_run (frames @ later) =
           (dab_run frames)\<lparr>eti_call_count := eti_call_count (dab_run frames) + int (length later)\<rparr>"
proof (induction later rule: rev_induct)
  case Nil
  show ?case by simp
next
  case (snoc frame later)
  have "dab_run (frames @ later @ [frame]) = fst (process_eti_frame (dab_run (frames @ later)) frame)"
    using dab_run_snoc [of "frames @ later" frame] by simp
  also have "\<dots> = (dab_run (frames @ later))\<lparr>eti_call_count := eti_call_count (dab_run (frames @ later)) + 1\<rparr>"
    by (rule process_eti_frame_skipped) (simp add: snoc.IH assms)
  finally show ?case by (simp add: snoc.IH)
qed

text \<open>
  A UDP stream of ETI frames through a new manager: the manager holds the parser fed
  the frames, and the completion flag of the stream is the one of the parser.
\<close>

lemma processUdp_frame:
  defines "p m key frame \<equiv> fst (process_eti_frame (parser_of (parsers (getParser key m) key)) frame)"
  shows "parsers (fst (processUdp m (key, Some (frame, d)))) key = Some (p m key frame)"
    and "complete_flags (fst (processUdp m (key, Some (frame, d)))) key =
           (labelled (p m key frame) \<or> (parsers m key \<noteq> None \<and> complete_flags m key))"
  unfolding p_def
  by (simp_all add: processUdp_def Let_def notify_basic_ready_def udp_notify_complete_def
      watch_subchannels_def getParser_def split: option.splits)

lemma udp_frames_run:
  defines "m frames key a b c d \<equiv>
     fst (run_steps processUdp (EnsembleManager_new a b c d) (udp_frames key frames))"
  shows "parsers (m frames key a b c d) key = (if frames = [] then None else Some (dab_run frames))
         \<and> complete_flags (m frames key a b c d) key = labelled (dab_run frames)"
proof (induction frames rule: rev_induct)
  case Nil
  show ?case by (simp add: m_def udp_frames_def EnsembleManager_new_def dab_run_def DABParser_new_def)
next
  case (snoc frame frames)
  let ?m = "m frames key a b c d"
  have step: "m (frames @ [frame]) key a b c d = fst (processUdp ?m (key, Some (frame, 0)))"
    by (simp add: m_def udp_frames_def run_steps_append split_beta Let_def)
  have p0: "parser_of (parsers (getParser key ?m) key) = dab_run frames"
    using snoc.IH by (simp add: getParser_def parser_of_def dab_run_def)
  have mono: "labelled (dab_run frames) \<Longrightarrow> labelled (dab_run (frames @ [frame]))"
    by (simp add: dab_run_snoc process_eti_frame_complete)
  show ?case
    unfolding step processUdp_frame p0 dab_run_snoc [symmetric]
    using snoc.IH mono by auto
qed

text \<open>
  C9. \<open>processUdp\<close> never calls \<open>subchannel_change_callback_\<close>: whatever UDP payloads a
  new manager is fed, on whatever streams and with whatever callbacks set, no
  sub-channel change is reported. A parser that is complete returns from
  \<open>process_eti_frame\<close> before it reads the frame, so the ensemble that the watch of
  \<open>processUdp\<close> compares with the recorded sub-channel map is the one the map was
  recorded from. So for a stream that completes on 11 frames with service 0x1234 on
  sub-channel 5 and then carries any number of frames which move the service to
  sub-channel 6 and add service 0x5678: the stream is complete, its parser still holds
  the ensemble with service 0x1234 on sub-channel 5, and nothing is reported; a parser
  that starts on the later frames reports both services on sub-channel 6.
\<close>

theorem processUdp_reports_no_subchannel_change:
  "filter is_change (concat (snd (run_steps processUdp
      (EnsembleManager_new on_basic on_complete on_eti on_change) xs))) = []
   \<and> complete_flags (fst (run_steps processUdp
         (EnsembleManager_new on_basic on_complete on_eti on_change)
         (udp_frames key (replicate 11 frame_subch5 @ replicate n frame_moved)))) key
   \<and> map_option ensemble (parsers (fst (run_steps processUdp
         (EnsembleManager_new on_basic on_complete on_eti on_change)
         (udp_frames key (replicate 11 frame_subch5 @ replicate n frame_moved)))) key)
       = Some ensemble_subch5
   \<and> map (\<lambda>s. (sid s, subchannel_id s)) (services ensemble_subch5) = [(0x1234, Some 5)]
   \<and> map (\<lambda>s. (sid s, subchannel_id s)) (services (ensemble (dab_run [frame_moved])))
       = [(0x1234, Some 6), (0x5678, Some 6)]"
proof -
  have r11: "dab_run (replicate 11 frame_subch5) = after_subch5 11"
    using dab_run_subch5 [of 10] by simp
  have l: "labelled (dab_run (replicate 11 frame_subch5))"
    by (simp add: r11 after_subch5_def)
  have run: "dab_run (replicate 11 frame_subch5 @ replicate n frame_moved) =
      (after_subch5 11)\<lparr>eti_call_count := eti_call_count (after_subch5 11) + int n\<rparr>"
    using dab_run_complete_append [OF l, of "replicate n frame_moved"] by (simp add: r11)
  have ne: "replicate 11 frame_subch5 @ replicate n frame_moved \<noteq> []" by simp
  note u = udp_frames_run [where frames = "replicate 11 frame_subch5 @ replicate n frame_moved"
      and key = key and a = on_basic and b = on_complete and c = on_eti and d = on_change]
  have "filter is_change (concat (snd (run_steps processUdp
      (EnsembleManager_new on_basic on_complete on_eti on_change) xs))) = []"
    by (rule run_processUdp_tracked) (rule EnsembleManager_new_tracked)
  moreover have "complete_flags (fst (run_steps processUdp
         (EnsembleManager_new on_basic on_complete on_eti on_change)
         (udp_frames key (replicate 11 frame_subch5 @ replicate n frame_moved)))) key"
    using u by (simp only: run) (simp add: after_subch5_def)
  moreover have "map_option ensemble (parsers (fst (run_steps processUdp
         (EnsembleManager_new on_basic on_complete on_eti on_change)
         (udp_frames key (replicate 11 frame_subch5 @ replicate n frame_moved)))) key)
       = Some ensemble_subch5"
    using u ne by (simp only: run if_False) (simp add: after_subch5_def)
  moreover have "map (\<lambda>s. (sid s, subchannel_id s)) (services ensemble_subch5) = [(0x1234, Some 5)]"
    by (simp add: ensemble_subch5_def)
  ultimately show ?thesis using frame_moved_first by blast
qed

end
